theory Spec2Isabelle
  imports Main "HOL-Library.Char_ord" "HOL-Library.List_Lexorder"
begin

section \<open>Python string operations used by the program\<close>

text \<open>
  Strings are byte strings (\<open>char list\<close>, UTF-8).  \<open>str.lower\<close> is modelled on the
  ASCII letters.  For board detection this agrees with Python: every registered URL
  pattern is pure ASCII, and the only characters outside ASCII that Python lowers to
  something containing an ASCII letter are the Kelvin sign (to \<open>k\<close>, which no pattern
  contains) and the dotted capital I (to \<open>i\<close> followed by a combining dot, while the only
  \<open>i\<close> of a pattern is followed by \<open>o\<close>).
\<close>

definition lower_char :: "char \<Rightarrow> char" where
  "lower_char c =
     (let n = (of_char c :: nat) in if 65 \<le> n \<and> n \<le> 90 then char_of (n + 32) else c)"

definition lower :: "string \<Rightarrow> string" where
  "lower s = map lower_char s"

text \<open>\<open>s.startswith(p)\<close> and the substring test \<open>p in s\<close>.\<close>

fun startswith :: "'a list \<Rightarrow> 'a list \<Rightarrow> bool" where
  "startswith [] s = True"
| "startswith (p # ps) [] = False"
| "startswith (p # ps) (c # cs) = (p = c \<and> startswith ps cs)"

fun py_in :: "'a list \<Rightarrow> 'a list \<Rightarrow> bool" where
  "py_in p [] = (p = [])"
| "py_in p (c # cs) = (startswith p (c # cs) \<or> py_in p cs)"

text \<open>
  \<open>s.replace(old, new)\<close> for a non-empty \<open>old\<close>: scan from the left, replace each
  occurrence found and continue after it (occurrences do not overlap).
\<close>

fun str_replace :: "string \<Rightarrow> string \<Rightarrow> string \<Rightarrow> string" where
  "str_replace [] old new = []"
| "str_replace (c # cs) old new =
     (if old \<noteq> [] \<and> startswith old (c # cs)
      then new @ str_replace (drop (length old) (c # cs)) old new
      else c # str_replace cs old new)"

text \<open>
  \<open>s.strip()\<close> removes white space from both ends.  The white-space characters of
  Python (those of \<open>str.isspace\<close>: U+0009 to U+000D, U+001C to U+0020, U+0085, U+00A0,
  U+1680, U+2000 to U+200A, U+2028, U+2029, U+202F, U+205F, U+3000) are written as their
  UTF-8 byte sequences.  \<open>strip_head\<close> removes from the front, one after another, the
  sequences of a list that the string starts with; the back is stripped on the reversed
  string.  \<open>len(s)\<close> counts code points, that is the bytes that are not UTF-8
  continuation bytes.
\<close>

definition white_space :: "string list" where
  "white_space = map (map char_of)
     [[9::nat], [10], [11], [12], [13], [28], [29], [30], [31], [32],
      [194, 133], [194, 160], [225, 154, 128],
      [226, 128, 128], [226, 128, 129], [226, 128, 130], [226, 128, 131], [226, 128, 132],
      [226, 128, 133], [226, 128, 134], [226, 128, 135], [226, 128, 136], [226, 128, 137],
      [226, 128, 138], [226, 128, 168], [226, 128, 169], [226, 128, 175], [226, 129, 159],
      [227, 128, 128]]"

fun strip_head :: "string list \<Rightarrow> string \<Rightarrow> string" where
  "strip_head ws [] = []"
| "strip_head ws (c # cs) =
     (case find (\<lambda>w. w \<noteq> [] \<and> startswith w (c # cs)) ws of
        None \<Rightarrow> c # cs
      | Some w \<Rightarrow> strip_head ws (drop (length w - 1) cs))"

definition lstrip :: "string \<Rightarrow> string" where
  "lstrip s = strip_head white_space s"

definition rstrip :: "string \<Rightarrow> string" where
  "rstrip s = rev (strip_head (map rev white_space) (rev s))"

definition strip :: "string \<Rightarrow> string" where
  "strip s = rstrip (lstrip s)"

definition len :: "string \<Rightarrow> nat" where
  "len s = length (filter (\<lambda>c. \<not> (128 \<le> (of_char c :: nat) \<and> (of_char c :: nat) < 192)) s)"

text \<open>\<open>sep.join(xs)\<close>.\<close>

fun join :: "string \<Rightarrow> string list \<Rightarrow> string" where
  "join sep [] = []"
| "join sep [x] = x"
| "join sep (x # y # ys) = x @ sep @ join sep (y # ys)"

section \<open>The board registry (boards.py)\<close>

record board =
  board_id :: string
  name :: string
  search_site :: string
  url_patterns :: "string list"
  job_title_selectors :: "string list"
  company_selectors :: "string list"
  form_selector :: "string option"
  form_in_iframe :: bool
  fields_map :: "(string \<times> string list) list"
  linkedin_label :: "string option"

definition greenhouse :: board where
  \<open>greenhouse = \<lparr>
     board_id = ''greenhouse'',
     name = ''Greenhouse'',
     search_site = ''site:boards.greenhouse.io'',
     url_patterns = [''boards.greenhouse.io'', ''/jobs/''],
     job_title_selectors =
       [''h1.app-title'', ''.app-title'', ''h1'', ''[data-qa*=\'job-title\']''],
     company_selectors =
       [''.company-name'', ''.app-company-name'', ''a.company-link'',
        ''[data-qa*=\'company\']''],
     form_selector = Some ''form#application-form'',
     form_in_iframe = True,
     fields_map =
       [(''first_name'',
           [''#first_name'', ''input[name=\'first_name\']'', ''input[id*=\'first\']'']),
        (''last_name'',
           [''#last_name'', ''input[name=\'last_name\']'', ''input[id*=\'last\']'']),
        (''email'',
           [''#email'', ''input[name=\'email\']'', ''input[type=\'email\']'']),
        (''phone'',
           [''#phone'', ''input[name=\'phone\']'', ''input[type=\'tel\']'']),
        (''linkedin_url'',
           [''#job_application_answers_attributes_0_text_value'',
            ''input[name*=\'linkedin\']'', ''input[id*=\'linkedin\']'']),
        (''resume'',
           [''input[type=\'file\'][name*=\'resume\']'',
            ''input[type=\'file\'][name*=\'content\']'', ''input[type=\'file\']'']),
        (''cover_letter'',
           [''#job_application_cover_letter'', ''textarea[name*=\'cover\']'',
            ''textarea[id*=\'cover\']'', ''textarea[placeholder*=\'cover\']''])],
     linkedin_label = Some ''LinkedIn Profile'' \<rparr>\<close>

definition lever :: board where
  \<open>lever = \<lparr>
     board_id = ''lever'',
     name = ''Lever'',
     search_site = ''site:jobs.lever.co'',
     url_patterns = [''jobs.lever.co''],
     job_title_selectors =
       [''h2.posting-headline__title'', ''.posting-headline h2'',
        ''h1.posting-headline__title'', ''h2'', ''h1''],
     company_selectors =
       [''.posting-headline__company'', ''.main-header-logo img[alt]'',
        ''a.posting-header-logo'', ''h1 + div''],
     form_selector = Some ''form.posting-form, form[action*=\'apply\'], .postings-btn-wrapper + form'',
     form_in_iframe = False,
     fields_map =
       [(''name'',
           [''input[name=\'name\']'', ''input#name'', ''input[placeholder*=\'ame\']'']),
        (''first_name'',
           [''input[name=\'firstName\']'', ''input#firstName'', ''input[name*=\'first\']'',
            ''#first_name'']),
        (''last_name'',
           [''input[name=\'lastName\']'', ''input#lastName'', ''input[name*=\'last\']'',
            ''#last_name'']),
        (''email'',
           [''input[name=\'email\']'', ''input#email'', ''input[type=\'email\']'']),
        (''phone'',
           [''input[name=\'phone\']'', ''input#phone'', ''input[type=\'tel\']'']),
        (''linkedin_url'',
           [''input[name*=\'linkedin\']'', ''input[name*=\'url\']'',
            ''input[id*=\'linkedin\']'']),
        (''resume'',
           [''input[type=\'file\']'']),
        (''cover_letter'',
           [''textarea[name*=\'comments\']'', ''textarea[name*=\'comment\']'',
            ''textarea[name*=\'cover\']'', ''textarea''])],
     linkedin_label = None \<rparr>\<close>

definition ashby :: board where
  \<open>ashby = \<lparr>
     board_id = ''ashby'',
     name = ''Ashby'',
     search_site = ''site:jobs.ashbyhq.com'',
     url_patterns = [''jobs.ashbyhq.com''],
     job_title_selectors =
       [''h1[data-ashby-job-title]'', ''h1.job-title'', ''h1''],
     company_selectors =
       [''[data-ashby-company-name]'', ''.company-name'', ''a[href*=\'ashbyhq.com\']''],
     form_selector = Some ''form[data-ashby-form], form'',
     form_in_iframe = False,
     fields_map =
       [(''name'',
           [''input[name*=\'name\']'', ''input[placeholder*=\'ame\']'']),
        (''first_name'',
           [''input[name*=\'firstName\']'', ''input[name*=\'first_name\']'', ''#first_name'',
            ''input[id*=\'first\']'']),
        (''last_name'',
           [''input[name*=\'lastName\']'', ''input[name*=\'last_name\']'', ''#last_name'',
            ''input[id*=\'last\']'']),
        (''email'',
           [''input[name*=\'email\']'', ''input[type=\'email\']'', ''#email'']),
        (''phone'',
           [''input[name*=\'phone\']'', ''input[type=\'tel\']'', ''#phone'']),
        (''linkedin_url'',
           [''input[name*=\'linkedin\']'', ''input[name*=\'url\']'',
            ''input[placeholder*=\'LinkedIn\']'']),
        (''resume'',
           [''input[type=\'file\']'']),
        (''cover_letter'',
           [''textarea[name*=\'cover\']'', ''textarea[name*=\'letter\']'', ''textarea''])],
     linkedin_label = None \<rparr>\<close>

text \<open>
  \<open>BOARDS\<close> is a dict literal; iterating it visits the keys in insertion order, so it is
  an association list.
\<close>

definition BOARDS :: "(string \<times> board) list" where
  "BOARDS = [(''greenhouse'', greenhouse), (''lever'', lever), (''ashby'', ashby)]"

definition board_matches :: "string \<Rightarrow> board \<Rightarrow> bool" where
  "board_matches s b = list_all (\<lambda>p. py_in p s) (url_patterns b)"

text \<open>The loop of \<open>detect_board_from_url\<close> over the items of a registry.\<close>

fun detect_in :: "(string \<times> board) list \<Rightarrow> string \<Rightarrow> string option" where
  "detect_in [] url_lower = None"
| "detect_in ((bid, b) # rest) url_lower =
     (if board_matches url_lower b then Some bid else detect_in rest url_lower)"

definition detect_board_from_url :: "string \<Rightarrow> string option" where
  "detect_board_from_url url = detect_in BOARDS (lower url)"

definition get_board :: "string \<Rightarrow> board option" where
  "get_board bid = map_of BOARDS bid"

definition get_search_site :: "string \<Rightarrow> string" where
  "get_search_site bid =
     (case map_of BOARDS bid of
        None \<Rightarrow> ''site:boards.greenhouse.io''
      | Some b \<Rightarrow> search_site b)"

section \<open>Persisted state (apply_jobs.py)\<close>

text \<open>
  \<open>applied_jobs.json\<close> is \<open>None\<close> when the file is missing or cannot be parsed, and
  otherwise the list stored under \<open>"urls"\<close> (empty when the key is absent).
  \<open>progress.json\<close> is \<open>None\<close> when missing or invalid, and otherwise a dict whose two
  keys may each be absent.  A line of \<open>applications.log\<close> is kept as
  (board name, company, title, URL); the time stamp is left out.
\<close>

record progress =
  job_urls :: "string list option"
  last_index :: "int option"

section \<open>The browser boundary\<close>

text \<open>
  An element handle carries what the program reads from it and whether \<open>fill\<close> on it
  succeeds.  A lookup inside \<open>try\<close> finds an element, finds none, or raises.
\<close>

record element =
  el_id :: nat
  inner_text :: string
  alt :: string
  fillable :: bool

datatype outcome = Found element | Absent | Raises

text \<open>A search root is the page's main document or one of its frames.\<close>

record root =
  query_selector :: "string \<Rightarrow> outcome"
  wait_for_selector :: "string \<Rightarrow> outcome"
  label_count :: "string \<Rightarrow> nat option"
  label_fillable :: "string \<Rightarrow> bool"
  accepts_files :: "string \<Rightarrow> bool"

record page =
  doc :: root
  frames :: "root list"
  content :: "string option"
  hrefs :: "string list"

text \<open>
  Every call the program issues to the browser is recorded, in order.  \<open>Fill\<close>,
  \<open>LabelFill\<close> and \<open>SetInputFiles\<close> carry whether the call succeeded (\<open>True\<close>) or
  raised; only a successful one changes the page.
\<close>

datatype event =
    Launch
  | Close
  | Goto string
  | WaitFor string
  | Query string
  | QueryAll string
  | Fill element string bool
  | LabelCount string
  | LabelFill string string bool
  | SetInputFiles string string bool
  | Content
  | Input

record world =
  applied_jobs_file :: "string list option"
  progress_file :: "progress option"
  applications_log :: "(string \<times> string \<times> string \<times> string) list"
  debug_page :: "string option"
  trace :: "event list"

text \<open>
  What the run cannot decide by itself: the page behind each URL, whether a path exists on
  disk, and the order in which \<open>list(applied)\<close> enumerates a Python set.
\<close>

record env =
  web :: "string \<Rightarrow> page"
  path_exists :: "string \<Rightarrow> bool"
  list_of_set :: "string set \<Rightarrow> string list"

record config =
  cfg_first_name :: string
  cfg_last_name :: string
  cfg_email :: string
  cfg_phone :: string
  cfg_linkedin_url :: string
  cfg_resume_path :: string
  cfg_cover_letter :: string
  cfg_cover_letter_template :: string
  cfg_job_urls :: "string list"
  cfg_job_search_query :: "string option"
  cfg_board :: "string option"

record args =
  resume :: bool
  board_arg :: "string option"

subsection \<open>Applied jobs and progress\<close>

definition load_applied_jobs :: "string list option \<Rightarrow> string set" where
  "load_applied_jobs f = (case f of None \<Rightarrow> {} | Some urls \<Rightarrow> set urls)"

definition save_applied_job ::
  "(string set \<Rightarrow> string list) \<Rightarrow> string \<Rightarrow> string list option \<Rightarrow> string list option" where
  "save_applied_job to_list url f =
     (let applied = load_applied_jobs f;
          applied = insert url applied
      in Some (to_list applied))"

definition load_progress :: "world \<Rightarrow> progress option" where
  "load_progress w = progress_file w"

definition save_progress :: "string list \<Rightarrow> nat \<Rightarrow> world \<Rightarrow> world" where
  "save_progress urls i w =
     w\<lparr>progress_file := Some \<lparr>job_urls = Some urls, last_index = Some (int i)\<rparr>\<rparr>"

definition clear_progress :: "world \<Rightarrow> world" where
  "clear_progress w = w\<lparr>progress_file := None\<rparr>"

definition log_application :: "string \<Rightarrow> string \<Rightarrow> string \<Rightarrow> string \<Rightarrow> world \<Rightarrow> world" where
  "log_application url job_title company board_name w =
     w\<lparr>applications_log := applications_log w @ [(board_name, company, job_title, url)]\<rparr>"

subsection \<open>Search\<close>

definition search_url :: "string \<Rightarrow> string \<Rightarrow> string" where
  "search_url query bid =
     (let full_query =
        (if bid = ''all''
         then (let sites = map (\<lambda>b. str_replace (search_site b) ''site:'' []) (map snd BOARDS);
                   site_query = join '' OR '' (map (\<lambda>site. ''site:'' @ site) sites)
               in ''('' @ site_query @ '') '' @ query)
         else get_search_site bid @ '' '' @ query)
      in ''https://duckduckgo.com/?q='' @ str_replace full_query '' '' ''+'' @ ''&t=h_&ia=web'')"

text \<open>
  The inner loop over the registry for one link: boards other than the requested one are
  skipped; the link is kept when some considered board matches (the patterns are tested on
  the link as it is, not lowercased).
\<close>

fun link_matches :: "string \<Rightarrow> string \<Rightarrow> (string \<times> board) list \<Rightarrow> bool" where
  "link_matches bid href [] = False"
| "link_matches bid href ((k, b) # rest) =
     (if bid \<noteq> ''all'' \<and> k \<noteq> bid then link_matches bid href rest
      else if list_all (\<lambda>p. py_in p href) (url_patterns b) then True
      else link_matches bid href rest)"

fun collect_links :: "string \<Rightarrow> string list \<Rightarrow> string list \<Rightarrow> string list" where
  "collect_links bid [] results = results"
| "collect_links bid (href # links) results =
     (if href = [] then collect_links bid links results
      else if link_matches bid href BOARDS \<and> href \<notin> set results
      then collect_links bid links (results @ [href])
      else collect_links bid links results)"

definition search_jobs_via_browser :: "env \<Rightarrow> string \<Rightarrow> string \<Rightarrow> string list \<times> event list" where
  \<open>search_jobs_via_browser e query bid =
     (let url = search_url query bid;
          found_links = hrefs (web e url)
      in (take 20 (collect_links bid found_links []),
          [Goto url, WaitFor ''a[href*="http"]'', QueryAll ''a[href]'']))\<close>

subsection \<open>Job page: context, template, form, fields\<close>

fun title_loop :: "root \<Rightarrow> string list \<Rightarrow> string option \<times> event list" where
  "title_loop r [] = (None, [])"
| "title_loop r (sel # sels) =
     (case query_selector r sel of
        Found el \<Rightarrow>
          (let t = strip (inner_text el)
           in if t \<noteq> [] \<and> len t < 200 then (Some t, [Query sel])
              else apsnd (Cons (Query sel)) (title_loop r sels))
      | Absent \<Rightarrow> apsnd (Cons (Query sel)) (title_loop r sels)
      | Raises \<Rightarrow> apsnd (Cons (Query sel)) (title_loop r sels))"

fun company_loop :: "root \<Rightarrow> string list \<Rightarrow> string option \<times> event list" where
  "company_loop r [] = (None, [])"
| "company_loop r (sel # sels) =
     (case query_selector r sel of
        Found el \<Rightarrow>
          (let c = strip (if inner_text el \<noteq> [] then inner_text el else alt el)
           in if c \<noteq> [] \<and> len c < 200 then (Some c, [Query sel])
              else apsnd (Cons (Query sel)) (company_loop r sels))
      | Absent \<Rightarrow> apsnd (Cons (Query sel)) (company_loop r sels)
      | Raises \<Rightarrow> apsnd (Cons (Query sel)) (company_loop r sels))"

definition get_job_context :: "page \<Rightarrow> board \<Rightarrow> (string \<times> string) \<times> event list" where
  "get_job_context pg b =
     (let (t, ev1) = title_loop (doc pg) (job_title_selectors b);
          (c, ev2) = company_loop (doc pg) (company_selectors b)
      in ((case t of None \<Rightarrow> ''Unknown role'' | Some x \<Rightarrow> x,
           case c of None \<Rightarrow> ''Unknown company'' | Some x \<Rightarrow> x), ev1 @ ev2))"

definition fill_cover_letter_template :: "string \<Rightarrow> string \<Rightarrow> string \<Rightarrow> string" where
  "fill_cover_letter_template template job_title company =
     str_replace
       (str_replace (str_replace template ''{job_title}'' job_title) ''{company_name}'' company)
       ''{company}'' company"

fun find_in_frames :: "string \<Rightarrow> root list \<Rightarrow> (element \<times> root) option \<times> event list" where
  "find_in_frames sel [] = (None, [])"
| "find_in_frames sel (frame # rest) =
     (case wait_for_selector frame sel of
        Found form \<Rightarrow> (Some (form, frame), [WaitFor sel])
      | Absent \<Rightarrow> apsnd (Cons (WaitFor sel)) (find_in_frames sel rest)
      | Raises \<Rightarrow> apsnd (Cons (WaitFor sel)) (find_in_frames sel rest))"

definition find_form :: "page \<Rightarrow> board \<Rightarrow> (element \<times> root) option \<times> event list" where
  "find_form pg b =
     (let sel = (case form_selector b of None \<Rightarrow> ''form'' | Some s \<Rightarrow> s);
          in_frames = (if form_in_iframe b then find_in_frames sel (frames pg) else (None, []))
      in case wait_for_selector (doc pg) sel of
           Found form \<Rightarrow> (Some (form, doc pg), [WaitFor sel])
         | Absent \<Rightarrow> apsnd (Cons (WaitFor sel)) in_frames
         | Raises \<Rightarrow> apsnd (Cons (WaitFor sel)) in_frames)"

text \<open>
  The probing loop of \<open>fill_field\<close>: a selector that finds nothing or raises is passed
  over, and so is an element whose \<open>fill\<close> raises.
\<close>

fun fill_loop :: "root \<Rightarrow> string \<Rightarrow> string list \<Rightarrow> bool \<times> event list" where
  "fill_loop r v [] = (False, [])"
| "fill_loop r v (sel # sels) =
     (case query_selector r sel of
        Found el \<Rightarrow>
          (if fillable el then (True, [Query sel, Fill el v True])
           else apsnd (\<lambda>evs. Query sel # Fill el v False # evs) (fill_loop r v sels))
      | Absent \<Rightarrow> apsnd (Cons (Query sel)) (fill_loop r v sels)
      | Raises \<Rightarrow> apsnd (Cons (Query sel)) (fill_loop r v sels))"

definition fill_field :: "root \<Rightarrow> string \<Rightarrow> string \<Rightarrow> board \<Rightarrow> bool \<times> event list" where
  "fill_field r field_key v b =
     (if v = [] then (False, [])
      else (let selectors = (case map_of (fields_map b) field_key of None \<Rightarrow> [] | Some ss \<Rightarrow> ss)
            in if selectors = [] then (False, []) else fill_loop r v selectors))"

fun upload_loop :: "root \<Rightarrow> string \<Rightarrow> string list \<Rightarrow> event list" where
  "upload_loop r path [] = []"
| "upload_loop r path (sel # sels) =
     (if accepts_files r sel then [SetInputFiles sel path True]
      else SetInputFiles sel path False # upload_loop r path sels)"

definition fill_linkedin :: "root \<Rightarrow> board \<Rightarrow> string \<Rightarrow> event list" where
  "fill_linkedin r b linkedin =
     (let by_selector = snd (fill_field r ''linkedin_url'' linkedin b)
      in if linkedin = [] then []
         else (case linkedin_label b of
                 None \<Rightarrow> by_selector
               | Some l \<Rightarrow>
                   if l = [] then by_selector
                   else (case label_count r l of
                           None \<Rightarrow> LabelCount l # by_selector
                         | Some n \<Rightarrow>
                             if 0 < n
                             then (if label_fillable r l then [LabelCount l, LabelFill l linkedin True]
                                   else LabelCount l # LabelFill l linkedin False # by_selector)
                             else [LabelCount l])))"

definition fill_form_with_board ::
  "env \<Rightarrow> root \<Rightarrow> board \<Rightarrow> config \<Rightarrow> string \<Rightarrow> string \<Rightarrow> event list" where
  \<open>fill_form_with_board e r b cfg job_title company =
     (let full_name = strip (cfg_first_name cfg @ '' '' @ cfg_last_name cfg);
          ev_first = snd (fill_field r ''first_name'' (cfg_first_name cfg) b);
          ev_last = snd (fill_field r ''last_name'' (cfg_last_name cfg) b);
          ev_name = (if full_name \<noteq> [] then snd (fill_field r ''name'' full_name b) else []);
          ev_email = snd (fill_field r ''email'' (cfg_email cfg) b);
          ev_phone = snd (fill_field r ''phone'' (cfg_phone cfg) b);
          ev_linkedin = fill_linkedin r b (cfg_linkedin_url cfg);
          cover = (if cfg_cover_letter cfg \<noteq> [] then cfg_cover_letter cfg
                   else cfg_cover_letter_template cfg);
          ev_cover =
            (if cover \<noteq> []
             then snd (fill_field r ''cover_letter''
                         (fill_cover_letter_template cover job_title company) b)
             else []);
          resume_path = cfg_resume_path cfg;
          ev_resume =
            (if resume_path \<noteq> [] \<and> path_exists e resume_path
             then upload_loop r resume_path
                    (case map_of (fields_map b) ''resume'' of
                       None \<Rightarrow> [''input[type=\'file\']'']
                     | Some ss \<Rightarrow> ss)
             else [])
      in ev_first @ ev_last @ ev_name @ ev_email @ ev_phone @ ev_linkedin @ ev_cover @ ev_resume)\<close>

definition add_events :: "event list \<Rightarrow> world \<Rightarrow> world" where
  "add_events evs w = w\<lparr>trace := trace w @ evs\<rparr>"

text \<open>
  \<open>apply_to_job\<close>.  The dump opens \<open>debug_page.html\<close> for writing before it asks the page
  for its content, so a failing \<open>content()\<close> leaves the file empty.
\<close>

definition apply_to_job :: "env \<Rightarrow> string \<Rightarrow> config \<Rightarrow> string \<Rightarrow> world \<Rightarrow> bool \<times> world" where
  "apply_to_job e url cfg bid w =
     (case get_board bid of
        None \<Rightarrow> (False, w)
      | Some b \<Rightarrow>
          (let main_page = web e url;
               ((job_title, company), ev_context) = get_job_context main_page b;
               (found, ev_form) = find_form main_page b;
               w1 = add_events (Goto url # ev_context @ ev_form) w
           in case found of
                None \<Rightarrow>
                  (False,
                   (add_events [Content] w1)
                     \<lparr>debug_page := Some (case content main_page of None \<Rightarrow> [] | Some c \<Rightarrow> c)\<rparr>)
              | Some (form, form_page) \<Rightarrow>
                  (let ev_fill = fill_form_with_board e form_page b cfg job_title company;
                       w2 = add_events (ev_fill @ [Input]) w1;
                       w3 = w2\<lparr>applied_jobs_file :=
                                 save_applied_job (list_of_set e) url (applied_jobs_file w2)\<rparr>;
                       w4 = log_application url job_title company (name b) w3
                   in (True, w4))))"

subsection \<open>The run driver\<close>

text \<open>\<open>xs[k:]\<close>: a negative start counts from the end and is clamped at the front.\<close>

definition slice_from :: "'a list \<Rightarrow> int \<Rightarrow> 'a list" where
  "slice_from xs k = (if 0 \<le> k then drop (nat k) xs else drop (nat (int (length xs) + k)) xs)"

definition not_applied :: "string set \<Rightarrow> string list \<Rightarrow> string list" where
  "not_applied applied urls = filter (\<lambda>u. u \<notin> applied) urls"

text \<open>A dict is true when it has a key.\<close>

definition truthy :: "progress \<Rightarrow> bool" where
  "truthy p = (job_urls p \<noteq> None \<or> last_index p \<noteq> None)"

text \<open>
  The first part of \<open>main\<close>: the job list from the configuration, resumed or filtered.
  The result is the list, the flag \<open>from_search\<close> and the state after
  \<open>clear_progress\<close> where it is called.
\<close>

definition choose_job_urls :: "args \<Rightarrow> config \<Rightarrow> world \<Rightarrow> string list \<times> bool \<times> world" where
  "choose_job_urls a cfg w =
     (let applied = load_applied_jobs (applied_jobs_file w)
      in if cfg_job_urls cfg \<noteq> []
         then (let urls = cfg_job_urls cfg
               in if resume a
                  then (case load_progress w of
                          None \<Rightarrow> (not_applied applied urls, False, w)
                        | Some p \<Rightarrow>
                            if truthy p \<and> job_urls p = Some urls
                            then (let last = (case last_index p of None \<Rightarrow> - 1 | Some l \<Rightarrow> l)
                                  in (slice_from urls (last + 1), False, w))
                            else (not_applied applied urls, False, w))
                  else (not_applied applied urls, False, clear_progress w))
         else ([], True, clear_progress w))"

text \<open>One round of the loop over the job list, and the loop.\<close>

definition fallback_board :: "config \<Rightarrow> string" where
  "fallback_board cfg = (case cfg_board cfg of None \<Rightarrow> ''greenhouse'' | Some b \<Rightarrow> b)"

definition per_job :: "env \<Rightarrow> config \<Rightarrow> string list \<Rightarrow> nat \<Rightarrow> string \<Rightarrow> world \<Rightarrow> world" where
  "per_job e cfg urls i url w =
     (let bid = (case detect_board_from_url url of None \<Rightarrow> fallback_board cfg | Some d \<Rightarrow> d);
          (filled, w1) = apply_to_job e url cfg bid w
      in save_progress urls i w1)"

fun per_job_loop :: "env \<Rightarrow> config \<Rightarrow> string list \<Rightarrow> nat \<Rightarrow> string list \<Rightarrow> world \<Rightarrow> world" where
  "per_job_loop e cfg urls i [] w = w"
| "per_job_loop e cfg urls i (url # rest) w =
     per_job_loop e cfg urls (Suc i) rest (per_job e cfg urls i url w)"

text \<open>From the test for an empty list inside the browser block to the end of \<open>main\<close>.\<close>

definition process_jobs :: "env \<Rightarrow> config \<Rightarrow> string list \<Rightarrow> world \<Rightarrow> world" where
  "process_jobs e cfg urls w =
     (if urls = [] then add_events [Close] w
      else add_events [Close] (clear_progress (per_job_loop e cfg urls 0 urls w)))"

definition main :: "env \<Rightarrow> args \<Rightarrow> config \<Rightarrow> world \<Rightarrow> world" where
  "main e a cfg w =
     (let applied = load_applied_jobs (applied_jobs_file w);
          (urls, from_search, w1) = choose_job_urls a cfg w
      in if \<not> from_search \<and> urls = [] then w1
         else (let w2 = add_events [Launch] w1
               in if from_search
                  then (let query = (case cfg_job_search_query cfg of
                                       None \<Rightarrow> ''engineer'' | Some q \<Rightarrow> q);
                            from_cfg = (case cfg_board cfg of None \<Rightarrow> ''all'' | Some b \<Rightarrow> b);
                            bid = (case board_arg a of
                                     None \<Rightarrow> from_cfg
                                   | Some b \<Rightarrow> if b = [] then from_cfg else b);
                            (found, evs) = search_jobs_via_browser e query bid;
                            w3 = add_events evs w2
                        in if found = [] then add_events [Close] w3
                           else process_jobs e cfg (not_applied applied found) w3)
                  else process_jobs e cfg urls w2))"

section \<open>Cover-letter templates as pieces\<close>

text \<open>
  The reading of a template that the claim about templating uses.  A template is read
  from the left as a sequence of pieces: wherever one of the three tokens starts, that
  token is a piece, and every other character is a literal piece of its own
  (\<open>tokenise\<close>).  \<open>template_text\<close> writes a piece as it stands in the template,
  \<open>expected_text\<close> as it should stand in the letter.
\<close>

datatype piece = Lit string | JobTitle | CompanyName | Company

fun template_text :: "piece \<Rightarrow> string" where
  "template_text (Lit s) = s"
| "template_text JobTitle = ''{job_title}''"
| "template_text CompanyName = ''{company_name}''"
| "template_text Company = ''{company}''"

fun expected_text :: "string \<Rightarrow> string \<Rightarrow> piece \<Rightarrow> string" where
  "expected_text job_title company (Lit s) = s"
| "expected_text job_title company JobTitle = job_title"
| "expected_text job_title company CompanyName = company"
| "expected_text job_title company Company = company"

fun is_token :: "piece \<Rightarrow> bool" where
  "is_token (Lit s) = False"
| "is_token p = True"

fun tokenise :: "string \<Rightarrow> piece list" where
  "tokenise [] = []"
| "tokenise (c # cs) =
     (if startswith ''{job_title}'' (c # cs) then JobTitle # tokenise (drop 10 cs)
      else if startswith ''{company_name}'' (c # cs) then CompanyName # tokenise (drop 13 cs)
      else if startswith ''{company}'' (c # cs) then Company # tokenise (drop 8 cs)
      else Lit [c] # tokenise cs)"

declare tokenise.simps [simp del]

text \<open>
  Auxiliary notions for the proofs: a literal piece is \<open>plain\<close> when it has no opening
  brace; \<open>swap_piece\<close> is one replacement pass seen on pieces; a piece list is
  \<open>guarded\<close> for a token when no literal piece with a brace begins an occurrence of it.
\<close>

fun plain :: "piece \<Rightarrow> bool" where
  "plain (Lit s) = (CHR ''{'' \<notin> set s)"
| "plain p = True"

definition swap_piece :: "piece \<Rightarrow> string \<Rightarrow> piece \<Rightarrow> piece" where
  "swap_piece tok new p = (if p = tok then Lit new else p)"

abbreviation text_of :: "piece list \<Rightarrow> string" where
  "text_of ps \<equiv> concat (map template_text ps)"

fun guarded :: "string \<Rightarrow> piece list \<Rightarrow> bool" where
  "guarded tok [] = True"
| "guarded tok (Lit s # ps) =
     ((CHR ''{'' \<notin> set s \<or> (s = ''{'' \<and> \<not> startswith tok (s @ text_of ps))) \<and> guarded tok ps)"
| "guarded tok (p # ps) = guarded tok ps"

section \<open>Example pages\<close>

text \<open>
  A search root on which only the third email selector of Greenhouse finds an element;
  the flag says whether \<open>fill\<close> on that element succeeds.
\<close>

definition email_page :: "bool \<Rightarrow> root" where
  \<open>email_page ok =
     \<lparr> query_selector =
         (\<lambda>sel. if sel = ''input[type=\'email\']''
                then Found \<lparr>el_id = 7, inner_text = [], alt = [], fillable = ok\<rparr>
                else Absent),
       wait_for_selector = (\<lambda>sel. Absent),
       label_count = (\<lambda>l. Some 0),
       label_fillable = (\<lambda>l. False),
       accepts_files = (\<lambda>sel. False) \<rparr>\<close>

text \<open>
  A search root on which only the second cover-letter selector of Greenhouse finds an
  element, a configuration with a cover-letter template, an empty page, a search result
  page with two Lever links, and a web in which only the search for \<open>sre\<close> on all boards
  has results and no other page can be read.
\<close>

definition cover_page :: root where
  \<open>cover_page =
     \<lparr> query_selector =
         (\<lambda>sel. if sel = ''textarea[name*=\'cover\']''
                then Found \<lparr>el_id = 3, inner_text = [], alt = [], fillable = True\<rparr>
                else Absent),
       wait_for_selector = (\<lambda>sel. Absent),
       label_count = (\<lambda>l. Some 0),
       label_fillable = (\<lambda>l. False),
       accepts_files = (\<lambda>sel. False) \<rparr>\<close>

definition cover_config :: config where
  "cover_config =
     \<lparr> cfg_first_name = ''Ada'', cfg_last_name = ''Lovelace'', cfg_email = ''ada@example.org'',
       cfg_phone = [], cfg_linkedin_url = [], cfg_resume_path = [],
       cfg_cover_letter = [], cfg_cover_letter_template = ''Dear {company}, re {job_title}'',
       cfg_job_urls = [], cfg_job_search_query = None, cfg_board = None \<rparr>"

definition blank_root :: root where
  "blank_root =
     \<lparr> query_selector = (\<lambda>sel. Absent),
       wait_for_selector = (\<lambda>sel. Absent),
       label_count = (\<lambda>l. Some 0),
       label_fillable = (\<lambda>l. False),
       accepts_files = (\<lambda>sel. False) \<rparr>"

definition blank_page :: "string option \<Rightarrow> page" where
  "blank_page c = \<lparr> doc = blank_root, frames = [], content = c, hrefs = [] \<rparr>"

definition links_page :: page where
  "links_page =
     \<lparr> doc = blank_root, frames = [], content = Some [],
       hrefs = [''https://jobs.lever.co/acme/1'', ''https://jobs.lever.co/acme/2''] \<rparr>"

definition example_env :: env where
  "example_env =
     \<lparr> web = (\<lambda>u. if u = search_url ''sre'' ''all'' then links_page else blank_page None),
       path_exists = (\<lambda>p. False),
       list_of_set = sorted_list_of_set \<rparr>"

text \<open>
  A state with nothing persisted, the two Lever jobs as a worklist, and the content of
  \<open>progress.json\<close> as \<open>save_progress\<close> writes it.
\<close>

definition fresh_world :: world where
  "fresh_world =
     \<lparr> applied_jobs_file = None, progress_file = None, applications_log = [],
       debug_page = None, trace = [] \<rparr>"


definition two_jobs :: "string list" where
  "two_jobs = [''https://jobs.lever.co/acme/1'', ''https://jobs.lever.co/acme/2'']"

definition saved_progress :: "string list \<Rightarrow> int \<Rightarrow> progress option" where
  "saved_progress urls i = Some \<lparr>job_urls = Some urls, last_index = Some i\<rparr>"

text \<open>The same web with every page empty but readable.\<close>

definition readable_env :: env where
  "readable_env = example_env\<lparr>web := (\<lambda>u. blank_page (Some ''<html></html>''))\<rparr>"

section \<open>Board detection\<close>

lemma startswith_iff: "startswith p s \<longleftrightarrow> (\<exists>t. s = p @ t)"
  by (induction p s rule: startswith.induct) auto

lemma py_in_iff: "py_in p s \<longleftrightarrow> (\<exists>a c. s = a @ p @ c)"
proof (induction s)
  case Nil
  then show ?case by auto
next
  case (Cons x xs)
  have "(\<exists>a c. x # xs = a @ p @ c) \<longleftrightarrow> (\<exists>c. x # xs = p @ c) \<or> (\<exists>a c. xs = a @ p @ c)"
    (is "?L \<longleftrightarrow> ?R")
  proof
    assume ?L
    then obtain a c where ac: "x # xs = a @ p @ c" by blast
    show ?R
    proof (cases a)
      case Nil
      with ac show ?thesis by auto
    next
      case (Cons y ys)
      with ac have "xs = ys @ p @ c" by simp
      then show ?thesis by blast
    qed
  next
    assume ?R
    then show ?L
    proof
      assume "\<exists>c. x # xs = p @ c"
      then obtain c where "x # xs = [] @ p @ c" by auto
      then show ?L by blast
    next
      assume "\<exists>a c. xs = a @ p @ c"
      then obtain a c where "x # xs = (x # a) @ p @ c" by auto
      then show ?L by blast
    qed
  qed
  with Cons show ?case by (simp add: startswith_iff del: startswith.simps)
qed

lemma board_matches_iff:
  "board_matches s b \<longleftrightarrow> (\<forall>p \<in> set (url_patterns b). \<exists>a c. s = a @ p @ c)"
  by (simp add: board_matches_def list_all_iff py_in_iff)

lemma detect_in_find:
  "detect_in bs u = map_option fst (find (\<lambda>kb. board_matches u (snd kb)) bs)"
  by (induction bs u rule: detect_in.induct) auto

lemma detect_in_None:
  "detect_in bs u = None \<longleftrightarrow> (\<forall>i<length bs. \<not> board_matches u (snd (bs ! i)))"
proof -
  have "detect_in bs u = None \<longleftrightarrow> (\<forall>kb \<in> set bs. \<not> board_matches u (snd kb))"
    by (induction bs u rule: detect_in.induct) auto
  then show ?thesis by (simp add: all_set_conv_all_nth)
qed

lemma detect_in_Some:
  "detect_in bs u = Some bid \<longleftrightarrow>
     (\<exists>i<length bs. fst (bs ! i) = bid \<and> board_matches u (snd (bs ! i))
        \<and> (\<forall>j<i. \<not> board_matches u (snd (bs ! j))))"
proof -
  have "detect_in bs u = Some bid \<longleftrightarrow>
          (\<exists>kb. find (\<lambda>kb. board_matches u (snd kb)) bs = Some kb \<and> fst kb = bid)"
    by (auto simp: detect_in_find)
  also have "\<dots> \<longleftrightarrow> (\<exists>i<length bs. fst (bs ! i) = bid \<and> board_matches u (snd (bs ! i))
        \<and> (\<forall>j<i. \<not> board_matches u (snd (bs ! j))))"
    unfolding find_Some_iff by blast
  finally show ?thesis .
qed

lemma detect_in_earlier:
  assumes "distinct (map fst bs)" "i < j" "j < length bs" "board_matches u (snd (bs ! i))"
  shows "detect_in bs u \<noteq> Some (fst (bs ! j))"
proof
  assume "detect_in bs u = Some (fst (bs ! j))"
  then obtain k where k: "k < length bs" "fst (bs ! k) = fst (bs ! j)"
      "\<forall>l<k. \<not> board_matches u (snd (bs ! l))"
    unfolding detect_in_Some by blast
  from nth_eq_iff_index_eq [OF assms(1), of k j] k(1,2) assms(3) have "k = j"
    by simp
  with k(3) assms(2,4) show False by blast
qed

lemma distinct_board_ids: "distinct (map fst BOARDS)"
  by (simp add: BOARDS_def)

text \<open>
  Claim C1.  The registry is iterated in the order greenhouse, lever, ashby.  Detection
  returns a board id exactly when that board is the first one in this order all of whose
  URL patterns occur as substrings of the lowercased URL, and returns none exactly when no
  board has all its patterns occurring; when the pattern sets of two boards both occur,
  the later-registered one is never the answer.
\<close>

theorem detect_board_first_match:
  "map fst BOARDS = [''greenhouse'', ''lever'', ''ashby'']
   \<and> (detect_board_from_url url = None \<longleftrightarrow>
        (\<forall>i<length BOARDS.
           \<not> (\<forall>p \<in> set (url_patterns (snd (BOARDS ! i))). \<exists>a c. lower url = a @ p @ c)))
   \<and> (detect_board_from_url url = Some bid \<longleftrightarrow>
        (\<exists>i<length BOARDS. fst (BOARDS ! i) = bid
           \<and> (\<forall>p \<in> set (url_patterns (snd (BOARDS ! i))). \<exists>a c. lower url = a @ p @ c)
           \<and> (\<forall>j<i. \<not> (\<forall>p \<in> set (url_patterns (snd (BOARDS ! j))).
                           \<exists>a c. lower url = a @ p @ c))))
   \<and> (\<forall>i j. i < j \<and> j < length BOARDS
          \<and> (\<forall>p \<in> set (url_patterns (snd (BOARDS ! i))). \<exists>a c. lower url = a @ p @ c)
          \<and> (\<forall>p \<in> set (url_patterns (snd (BOARDS ! j))). \<exists>a c. lower url = a @ p @ c)
          \<longrightarrow> detect_board_from_url url \<noteq> Some (fst (BOARDS ! j)))"
proof (intro conjI)
  show "map fst BOARDS = [''greenhouse'', ''lever'', ''ashby'']"
    by (simp add: BOARDS_def)
  show "detect_board_from_url url = None \<longleftrightarrow>
        (\<forall>i<length BOARDS.
           \<not> (\<forall>p \<in> set (url_patterns (snd (BOARDS ! i))). \<exists>a c. lower url = a @ p @ c))"
    unfolding detect_board_from_url_def detect_in_None board_matches_iff by simp
  show "detect_board_from_url url = Some bid \<longleftrightarrow>
        (\<exists>i<length BOARDS. fst (BOARDS ! i) = bid
           \<and> (\<forall>p \<in> set (url_patterns (snd (BOARDS ! i))). \<exists>a c. lower url = a @ p @ c)
           \<and> (\<forall>j<i. \<not> (\<forall>p \<in> set (url_patterns (snd (BOARDS ! j))).
                           \<exists>a c. lower url = a @ p @ c)))"
    unfolding detect_board_from_url_def detect_in_Some board_matches_iff by simp
  show "\<forall>i j. i < j \<and> j < length BOARDS
          \<and> (\<forall>p \<in> set (url_patterns (snd (BOARDS ! i))). \<exists>a c. lower url = a @ p @ c)
          \<and> (\<forall>p \<in> set (url_patterns (snd (BOARDS ! j))). \<exists>a c. lower url = a @ p @ c)
          \<longrightarrow> detect_board_from_url url \<noteq> Some (fst (BOARDS ! j))"
    unfolding detect_board_from_url_def board_matches_iff [symmetric]
    using detect_in_earlier [OF distinct_board_ids] by blast
qed



theorem detect_board_first_match_witness:
  "detect_board_from_url ''https://Jobs.Lever.co/acme/1?src=boards.greenhouse.io/jobs/7''
     = Some ''greenhouse''
   \<and> detect_board_from_url ''https://Jobs.Lever.co/acme/1?src=boards.greenhouse.io/jobs/7''
     \<noteq> Some ''lever''
   \<and> (\<exists>i<length BOARDS. fst (BOARDS ! i) = ''greenhouse''
        \<and> (\<forall>p \<in> set (url_patterns (snd (BOARDS ! i))).
              \<exists>a c. lower ''https://Jobs.Lever.co/acme/1?src=boards.greenhouse.io/jobs/7''
                      = a @ p @ c))"
proof -
  let ?u = "''https://Jobs.Lever.co/acme/1?src=boards.greenhouse.io/jobs/7''"
  note T = detect_board_first_match [of ?u "''greenhouse''"]
  have d: "detect_board_from_url ?u = Some ''greenhouse''"
    by code_simp
  have "board_matches (lower ?u) (snd (BOARDS ! 0))"
    by code_simp
  then have g: "\<forall>p \<in> set (url_patterns (snd (BOARDS ! 0))). \<exists>a c. lower ?u = a @ p @ c"
    unfolding board_matches_iff .
  have "board_matches (lower ?u) (snd (BOARDS ! 1))"
    by code_simp
  then have l: "\<forall>p \<in> set (url_patterns (snd (BOARDS ! 1))). \<exists>a c. lower ?u = a @ p @ c"
    unfolding board_matches_iff .
  have n: "(0::nat) < 1 \<and> 1 < length BOARDS" and f: "fst (BOARDS ! 1) = ''lever''"
    by (simp_all add: BOARDS_def)
  from T have "(0::nat) < 1 \<and> 1 < length BOARDS
      \<and> (\<forall>p \<in> set (url_patterns (snd (BOARDS ! 0))). \<exists>a c. lower ?u = a @ p @ c)
      \<and> (\<forall>p \<in> set (url_patterns (snd (BOARDS ! 1))). \<exists>a c. lower ?u = a @ p @ c)
      \<longrightarrow> detect_board_from_url ?u \<noteq> Some (fst (BOARDS ! 1))"
    by blast
  with n g l f have tie: "detect_board_from_url ?u \<noteq> Some ''lever''"
    by simp
  from T d have "\<exists>i<length BOARDS. fst (BOARDS ! i) = ''greenhouse''
        \<and> (\<forall>p \<in> set (url_patterns (snd (BOARDS ! i))). \<exists>a c. lower ?u = a @ p @ c)"
    by blast
  with d tie show ?thesis by blast
qed

section \<open>Field filling\<close>

text \<open>
  Claim C3.  For every search root, field key and board: when the value is empty, or the
  board has no selector list for the key, or that list is empty, \<open>fill_field\<close> returns
  \<open>False\<close> and issues no call to the browser at all, so nothing on the page changes.
\<close>

theorem fill_field_short_circuit:
  assumes "v = [] \<or> map_of (fields_map b) field_key = None
             \<or> map_of (fields_map b) field_key = Some []"
  shows "fill_field r field_key v b = (False, [])"
  using assms by (auto simp: fill_field_def)

theorem fill_field_short_circuit_witness:
  "fill_field (email_page True) ''email'' [] greenhouse = (False, [])
   \<and> fill_field (email_page True) ''salary'' ''x'' greenhouse = (False, [])"
proof -
  have "map_of (fields_map greenhouse) ''salary'' = None"
    by (simp add: greenhouse_def)
  then show ?thesis
    using fill_field_short_circuit [of "[]" greenhouse "''email''" "email_page True"]
      fill_field_short_circuit [of "''x''" greenhouse "''salary''" "email_page True"]
    by simp
qed

lemma fill_loop_first_match:
  assumes "n < length sels" "query_selector r (sels ! n) = Found el" "fillable el"
    "\<forall>i<n. query_selector r (sels ! i) = Absent \<or> query_selector r (sels ! i) = Raises"
  shows "fill_loop r v sels = (True, map Query (take (Suc n) sels) @ [Fill el v True])"
  using assms
proof (induction sels arbitrary: n)
  case Nil
  then show ?case by simp
next
  case (Cons s sels)
  show ?case
  proof (cases n)
    case 0
    with Cons.prems show ?thesis by simp
  next
    case (Suc m)
    with Cons.prems have m: "m < length sels" "query_selector r (sels ! m) = Found el"
      "\<forall>i<m. query_selector r (sels ! i) = Absent \<or> query_selector r (sels ! i) = Raises"
      by auto
    from Cons.prems(4) Suc have "query_selector r s = Absent \<or> query_selector r s = Raises"
      by auto
    with Cons.IH [OF m(1,2) Cons.prems(3) m(3)] Suc show ?thesis
      by auto
  qed
qed

text \<open>
  Claim C4, amended.  For a non-empty value and a selector list whose selector number
  \<open>n\<close> finds an element on which \<open>fill\<close> succeeds, while every earlier selector finds
  nothing (or raises): \<open>fill_field\<close> queries the selectors up to number \<open>n\<close> in list
  order, fills that element once, returns \<open>True\<close>, and issues no call for any later
  selector.
\<close>

theorem fill_field_first_match:
  assumes "v \<noteq> []" "map_of (fields_map b) field_key = Some sels" "n < length sels"
    "query_selector r (sels ! n) = Found el" "fillable el"
    "\<forall>i<n. query_selector r (sels ! i) = Absent \<or> query_selector r (sels ! i) = Raises"
  shows "fill_field r field_key v b
           = (True, map Query (take (Suc n) sels) @ [Fill el v True])"
proof -
  from assms(3) have "sels \<noteq> []" by auto
  with assms(1,2) have "fill_field r field_key v b = fill_loop r v sels"
    by (simp add: fill_field_def)
  with fill_loop_first_match [OF assms(3-6)] show ?thesis by simp
qed


lemma email_selectors:
  \<open>map_of (fields_map greenhouse) ''email''
     = Some [''#email'', ''input[name=\'email\']'', ''input[type=\'email\']'']\<close>
  by (simp add: greenhouse_def)

theorem fill_field_first_match_witness:
  \<open>fill_field (email_page True) ''email'' ''a@b.c'' greenhouse
     = (True, [Query ''#email'', Query ''input[name=\'email\']'', Query ''input[type=\'email\']'',
               Fill \<lparr>el_id = 7, inner_text = [], alt = [], fillable = True\<rparr> ''a@b.c'' True])\<close>
proof -
  let ?sels = \<open>[''#email'', ''input[name=\'email\']'', ''input[type=\'email\']'']\<close>
  let ?el = "\<lparr>el_id = 7, inner_text = [], alt = [], fillable = True\<rparr>"
  have v: "''a@b.c'' \<noteq> []" by simp
  have n: "2 < length ?sels" by simp
  have q: "query_selector (email_page True) (?sels ! 2) = Found ?el"
    by (simp add: email_page_def)
  have f: "fillable ?el" by simp
  have e: "\<forall>i<2. query_selector (email_page True) (?sels ! i) = Absent
              \<or> query_selector (email_page True) (?sels ! i) = Raises"
    by (simp add: email_page_def less_Suc_eq numeral_2_eq_2)
  from fill_field_first_match [OF v email_selectors n q f e]
  show ?thesis by (simp add: numeral_2_eq_2 numeral_3_eq_3)
qed

text \<open>
  Claim C4 as stated has no condition on the value or on the \<open>fill\<close> call.  On the
  Greenhouse email selectors with only the third one finding an element, an empty value
  makes \<open>fill_field\<close> return \<open>False\<close> without a single query, and an element whose
  \<open>fill\<close> raises makes it return \<open>False\<close> as well.
\<close>

theorem fill_field_first_match_counterexample:
  \<open>map_of (fields_map greenhouse) ''email''
     = Some [''#email'', ''input[name=\'email\']'', ''input[type=\'email\']'']
   \<and> map (query_selector (email_page True))
         [''#email'', ''input[name=\'email\']'', ''input[type=\'email\']'']
       = [Absent, Absent, Found \<lparr>el_id = 7, inner_text = [], alt = [], fillable = True\<rparr>]
   \<and> fill_field (email_page True) ''email'' [] greenhouse = (False, [])
   \<and> map (query_selector (email_page False))
         [''#email'', ''input[name=\'email\']'', ''input[type=\'email\']'']
       = [Absent, Absent, Found \<lparr>el_id = 7, inner_text = [], alt = [], fillable = False\<rparr>]
   \<and> fst (fill_field (email_page False) ''email'' ''a@b.c'' greenhouse) = False\<close>
proof (intro conjI)
  show \<open>map_of (fields_map greenhouse) ''email''
     = Some [''#email'', ''input[name=\'email\']'', ''input[type=\'email\']'']\<close>
    by (rule email_selectors)
  show \<open>map (query_selector (email_page True))
         [''#email'', ''input[name=\'email\']'', ''input[type=\'email\']'']
       = [Absent, Absent, Found \<lparr>el_id = 7, inner_text = [], alt = [], fillable = True\<rparr>]\<close>
    by (simp add: email_page_def)
  show "fill_field (email_page True) ''email'' [] greenhouse = (False, [])"
    by (simp add: fill_field_def)
  show \<open>map (query_selector (email_page False))
         [''#email'', ''input[name=\'email\']'', ''input[type=\'email\']'']
       = [Absent, Absent, Found \<lparr>el_id = 7, inner_text = [], alt = [], fillable = False\<rparr>]\<close>
    by (simp add: email_page_def)
  show "fst (fill_field (email_page False) ''email'' ''a@b.c'' greenhouse) = False"
    by (simp add: fill_field_def email_selectors email_page_def)
qed

section \<open>Applied jobs\<close>

lemma count_list_distinct: "distinct xs \<Longrightarrow> x \<in> set xs \<Longrightarrow> count_list xs x = 1"
  by (induction xs) auto

text \<open>
  Claim C5.  Let \<open>to_list\<close> and \<open>to_list'\<close> be any two enumerations of a set without
  repetition (the order of \<open>list(applied)\<close> is not fixed by Python and may differ from
  one call to the next).  Recording a URL into any prior \<open>applied_jobs.json\<close> (missing,
  invalid, or a list with or without duplicates) and recording it again leaves a list
  without duplicates that holds the URL exactly once; the second recording does not
  change the recorded set.  The list written holds exactly the URLs of the list that was
  stored before together with the new URL (and the new URL alone when the file was missing
  or invalid), so every URL stored before is still stored after each recording, and
  reading the file back gives the same set.
\<close>

theorem save_applied_job_idempotent:
  assumes "\<forall>xs. set (to_list (set xs)) = set xs \<and> distinct (to_list (set xs))"
    and "\<forall>xs. set (to_list' (set xs)) = set xs \<and> distinct (to_list' (set xs))"
  shows "\<exists>once twice.
           save_applied_job to_list url f = Some once
         \<and> save_applied_job to_list' url (Some once) = Some twice
         \<and> count_list once url = 1 \<and> count_list twice url = 1
         \<and> distinct once \<and> distinct twice
         \<and> set twice = set once
         \<and> set once = insert url (load_applied_jobs f)
         \<and> set once = insert url (case f of None \<Rightarrow> {} | Some stored \<Rightarrow> set stored)
         \<and> (\<forall>stored. f = Some stored \<longrightarrow> set stored \<subseteq> set once \<and> set stored \<subseteq> set twice)
         \<and> load_applied_jobs (Some once) = set once
         \<and> load_applied_jobs (Some twice) = set once"
proof -
  obtain xs where xs: "load_applied_jobs f = set xs"
    and st: "(case f of None \<Rightarrow> {} | Some stored \<Rightarrow> set stored) = set xs"
    by (cases f) (auto simp: load_applied_jobs_def intro: that [of "[]"])
  define once where "once = to_list (set (url # xs))"
  define twice where "twice = to_list' (set (url # once))"
  from assms(1) have o: "set once = insert url (set xs)" "distinct once"
    unfolding once_def by (metis list.simps(15))+
  from assms(2) have t: "set twice = insert url (set once)" "distinct twice"
    unfolding twice_def by (metis list.simps(15))+
  have 1: "save_applied_job to_list url f = Some once"
    by (simp add: save_applied_job_def xs once_def)
  have 2: "save_applied_job to_list' url (Some once) = Some twice"
    by (simp add: save_applied_job_def load_applied_jobs_def twice_def)
  from o have c1: "count_list once url = 1"
    by (intro count_list_distinct) auto
  from t have c2: "count_list twice url = 1"
    by (intro count_list_distinct) auto
  from o t have eq: "set twice = set once"
    by auto
  from o st have s1: "set once = insert url (case f of None \<Rightarrow> {} | Some stored \<Rightarrow> set stored)"
    by simp
  then have s2: "\<forall>stored. f = Some stored \<longrightarrow> set stored \<subseteq> set once \<and> set stored \<subseteq> set twice"
    using eq by auto
  have l: "load_applied_jobs (Some once) = set once" "load_applied_jobs (Some twice) = set once"
    using eq by (simp_all add: load_applied_jobs_def)
  from o xs have s0: "set once = insert url (load_applied_jobs f)"
    by simp
  from 1 2 c1 c2 o(2) t(2) eq s0 s1 s2 l show ?thesis
    by (intro exI [of _ once] exI [of _ twice] conjI)
qed

theorem save_applied_job_idempotent_witness:
  "\<exists>once twice.
           save_applied_job sorted_list_of_set ''u2'' (Some [''u1'', ''u2'', ''u2'']) = Some once
         \<and> save_applied_job (\<lambda>s. rev (sorted_list_of_set s)) ''u2'' (Some once) = Some twice
         \<and> count_list once ''u2'' = 1 \<and> count_list twice ''u2'' = 1
         \<and> distinct once \<and> distinct twice
         \<and> set twice = set once
         \<and> set once = {''u1'', ''u2''}
         \<and> set [''u1'', ''u2'', ''u2''] \<subseteq> set once
         \<and> set [''u1'', ''u2'', ''u2''] \<subseteq> set twice"
proof -
  have a: "\<forall>xs :: string list. set (sorted_list_of_set (set xs)) = set xs
          \<and> distinct (sorted_list_of_set (set xs))"
    by simp
  have b: "\<forall>xs :: string list. set (rev (sorted_list_of_set (set xs))) = set xs
          \<and> distinct (rev (sorted_list_of_set (set xs)))"
    by simp
  from save_applied_job_idempotent [OF a b, of "''u2''" "Some [''u1'', ''u2'', ''u2'']"]
  show ?thesis
  proof (elim exE conjE)
    fix once twice
    assume s: "save_applied_job sorted_list_of_set ''u2'' (Some [''u1'', ''u2'', ''u2'']) = Some once"
      "save_applied_job (\<lambda>s. rev (sorted_list_of_set s)) ''u2'' (Some once) = Some twice"
      and c: "count_list once ''u2'' = 1" "count_list twice ''u2'' = 1"
      and d: "distinct once" "distinct twice"
      and eq: "set twice = set once"
      and "set once = insert ''u2'' (case Some [''u1'', ''u2'', ''u2''] of
                                      None \<Rightarrow> {} | Some stored \<Rightarrow> set stored)"
    then have o: "set once = {''u1'', ''u2''}"
      by auto
    then have sub: "set [''u1'', ''u2'', ''u2''] \<subseteq> set once"
      by auto
    with eq have sub': "set [''u1'', ''u2'', ''u2''] \<subseteq> set twice"
      by (simp only:)
    from s c d eq o sub sub' show ?thesis
      by (intro exI [of _ once] exI [of _ twice] conjI)
  qed
qed

section \<open>Cover-letter templating\<close>

lemma str_replace_plain:
  "CHR ''{'' \<notin> set s \<Longrightarrow> hd old = CHR ''{'' \<Longrightarrow> old \<noteq> [] \<Longrightarrow>
     str_replace (s @ t) old new = s @ str_replace t old new"
proof (induction s)
  case Nil
  then show ?case by simp
next
  case (Cons c cs)
  then have "\<not> startswith old (c # cs @ t)"
    by (cases old) auto
  with Cons show ?case by simp
qed

lemma startswith_append: "startswith p (p @ t)"
  by (induction p) auto

lemma str_replace_token:
  "old \<noteq> [] \<Longrightarrow> str_replace (old @ t) old new = new @ str_replace t old new"
  by (cases old) (simp_all add: startswith_append)

lemma replace_piece:
  "plain p \<Longrightarrow> is_token tok \<Longrightarrow>
     str_replace (template_text p @ t) (template_text tok) new
       = template_text (swap_piece tok new p) @ str_replace t (template_text tok) new"
  by (cases tok; cases p) (simp_all add: swap_piece_def str_replace_plain)

lemma swap_all:
  "template_text (swap_piece Company c (swap_piece CompanyName c (swap_piece JobTitle j p)))
     = expected_text j c p"
  by (cases p) (simp_all add: swap_piece_def)

lemma tokenise_cases:
  "startswith ''{job_title}'' (c # cs) \<Longrightarrow>
     tokenise (c # cs) = JobTitle # tokenise (drop 10 cs) \<and> c # cs = ''{job_title}'' @ drop 10 cs"
  "\<not> startswith ''{job_title}'' (c # cs) \<Longrightarrow> startswith ''{company_name}'' (c # cs) \<Longrightarrow>
     tokenise (c # cs) = CompanyName # tokenise (drop 13 cs)
     \<and> c # cs = ''{company_name}'' @ drop 13 cs"
  "\<not> startswith ''{job_title}'' (c # cs) \<Longrightarrow> \<not> startswith ''{company_name}'' (c # cs) \<Longrightarrow>
     startswith ''{company}'' (c # cs) \<Longrightarrow>
     tokenise (c # cs) = Company # tokenise (drop 8 cs) \<and> c # cs = ''{company}'' @ drop 8 cs"
  "\<not> startswith ''{job_title}'' (c # cs) \<Longrightarrow> \<not> startswith ''{company_name}'' (c # cs) \<Longrightarrow>
     \<not> startswith ''{company}'' (c # cs) \<Longrightarrow>
     tokenise (c # cs) = Lit [c] # tokenise cs"
proof -
  show "tokenise (c # cs) = JobTitle # tokenise (drop 10 cs) \<and> c # cs = ''{job_title}'' @ drop 10 cs"
    if h: "startswith ''{job_title}'' (c # cs)"
  proof
    show "tokenise (c # cs) = JobTitle # tokenise (drop 10 cs)"
      by (simp only: tokenise.simps h if_True)
    from h show "c # cs = ''{job_title}'' @ drop 10 cs"
      by (auto simp: startswith_iff)
  qed
  show "tokenise (c # cs) = CompanyName # tokenise (drop 13 cs)
     \<and> c # cs = ''{company_name}'' @ drop 13 cs"
    if f: "\<not> startswith ''{job_title}'' (c # cs)" and h: "startswith ''{company_name}'' (c # cs)"
  proof
    show "tokenise (c # cs) = CompanyName # tokenise (drop 13 cs)"
      by (simp only: tokenise.simps f h if_True if_False)
    from h show "c # cs = ''{company_name}'' @ drop 13 cs"
      by (auto simp: startswith_iff)
  qed
  show "tokenise (c # cs) = Company # tokenise (drop 8 cs) \<and> c # cs = ''{company}'' @ drop 8 cs"
    if f: "\<not> startswith ''{job_title}'' (c # cs)" "\<not> startswith ''{company_name}'' (c # cs)"
      and h: "startswith ''{company}'' (c # cs)"
  proof
    show "tokenise (c # cs) = Company # tokenise (drop 8 cs)"
      by (simp only: tokenise.simps f h if_True if_False)
    from h show "c # cs = ''{company}'' @ drop 8 cs"
      by (auto simp: startswith_iff)
  qed
  show "tokenise (c # cs) = Lit [c] # tokenise cs"
    if f: "\<not> startswith ''{job_title}'' (c # cs)" "\<not> startswith ''{company_name}'' (c # cs)"
      "\<not> startswith ''{company}'' (c # cs)"
    by (simp only: tokenise.simps f if_False)
qed

lemma text_tokenise: "text_of (tokenise t) = t"
proof (induction t rule: tokenise.induct)
  case 1
  then show ?case by (simp add: tokenise.simps(1))
next
  case (2 c cs)
  consider (a) "startswith ''{job_title}'' (c # cs)"
    | (b) "\<not> startswith ''{job_title}'' (c # cs)" "startswith ''{company_name}'' (c # cs)"
    | (c) "\<not> startswith ''{job_title}'' (c # cs)" "\<not> startswith ''{company_name}'' (c # cs)"
        "startswith ''{company}'' (c # cs)"
    | (d) "\<not> startswith ''{job_title}'' (c # cs)" "\<not> startswith ''{company_name}'' (c # cs)"
        "\<not> startswith ''{company}'' (c # cs)"
    by blast
  then show ?case
  proof cases
    case a
    note t = tokenise_cases(1) [OF a]
    have "text_of (tokenise (c # cs)) = ''{job_title}'' @ text_of (tokenise (drop 10 cs))"
      unfolding t [THEN conjunct1] by simp
    with 2(1) [OF a] t [THEN conjunct2] show ?thesis by simp
  next
    case b
    note t = tokenise_cases(2) [OF b]
    have "text_of (tokenise (c # cs)) = ''{company_name}'' @ text_of (tokenise (drop 13 cs))"
      unfolding t [THEN conjunct1] by simp
    with 2(2) [OF b] t [THEN conjunct2] show ?thesis by simp
  next
    case c
    note t = tokenise_cases(3) [OF c]
    have "text_of (tokenise (c # cs)) = ''{company}'' @ text_of (tokenise (drop 8 cs))"
      unfolding t [THEN conjunct1] by simp
    with 2(3) [OF c] t [THEN conjunct2] show ?thesis by simp
  next
    case d
    from tokenise_cases(4) [OF d] 2(4) [OF d] show ?thesis
      by simp
  qed
qed

lemma guarded_tokenise:
  assumes "tok = ''{job_title}'' \<or> tok = ''{company_name}'' \<or> tok = ''{company}''"
  shows "guarded tok (tokenise t)"
proof (induction t rule: tokenise.induct)
  case 1
  then show ?case by (simp add: tokenise.simps(1))
next
  case (2 c cs)
  consider (a) "startswith ''{job_title}'' (c # cs)"
    | (b) "\<not> startswith ''{job_title}'' (c # cs)" "startswith ''{company_name}'' (c # cs)"
    | (c) "\<not> startswith ''{job_title}'' (c # cs)" "\<not> startswith ''{company_name}'' (c # cs)"
        "startswith ''{company}'' (c # cs)"
    | (d) "\<not> startswith ''{job_title}'' (c # cs)" "\<not> startswith ''{company_name}'' (c # cs)"
        "\<not> startswith ''{company}'' (c # cs)"
    by blast
  then show ?case
  proof cases
    case a
    from 2(1) [OF a] show ?thesis
      unfolding tokenise_cases(1) [OF a, THEN conjunct1] by simp
  next
    case b
    from 2(2) [OF b] show ?thesis
      unfolding tokenise_cases(2) [OF b, THEN conjunct1] by simp
  next
    case c
    from 2(3) [OF c] show ?thesis
      unfolding tokenise_cases(3) [OF c, THEN conjunct1] by simp
  next
    case d
    from d assms have "\<not> startswith tok (c # cs)" by blast
    then have "\<not> startswith tok ([c] @ text_of (tokenise cs))"
      by (simp add: text_tokenise del: startswith.simps)
    moreover have "CHR ''{'' \<notin> set [c] \<or> [c] = ''{''"
      by auto
    ultimately show ?thesis
      using 2(4) [OF d] unfolding tokenise_cases(4) [OF d] by (simp del: startswith.simps)
  qed
qed

lemma replace_guarded:
  "guarded (template_text tok) ps \<Longrightarrow> is_token tok \<Longrightarrow>
     str_replace (text_of ps) (template_text tok) new
       = text_of (map (swap_piece tok new) ps)"
proof (induction ps)
  case Nil
  then show ?case by simp
next
  case (Cons p ps)
  show ?case
  proof (cases "plain p")
    case True
    from Cons.prems have "guarded (template_text tok) ps"
      by (cases p) simp_all
    with Cons True show ?thesis
      by (simp add: replace_piece)
  next
    case False
    then obtain s where p: "p = Lit s" and "CHR ''{'' \<in> set s"
      by (cases p) auto
    with Cons.prems have s: "s = ''{''"
      and n: "\<not> startswith (template_text tok) (s @ text_of ps)"
      and g: "guarded (template_text tok) ps"
      by auto
    from Cons.prems(2) have "swap_piece tok new p = p"
      by (cases tok) (simp_all add: swap_piece_def p)
    moreover from n s have "str_replace (text_of (p # ps)) (template_text tok) new
        = CHR ''{'' # str_replace (text_of ps) (template_text tok) new"
      by (simp add: p del: startswith.simps)
    ultimately show ?thesis
      using Cons.IH [OF g Cons.prems(2)] by (simp add: p s)
  qed
qed

lemma startswith_append_iff:
  "startswith q (s @ r) \<longleftrightarrow> startswith q s \<or> (\<exists>q'. q = s @ q' \<and> startswith q' r)"
proof (induction s arbitrary: q)
  case Nil
  then show ?case by (cases q) auto
next
  case (Cons x xs)
  then show ?case by (cases q) auto
qed


lemma py_in_suffix: "py_in p q \<Longrightarrow> py_in p (s @ q)"
  unfolding py_in_iff by (metis append.assoc)

lemma py_in_prefix: "py_in p (p @ q)"
  unfolding py_in_iff by (metis append_Nil)

lemma py_in_extend: "py_in p q \<Longrightarrow> py_in p (q @ s)"
  unfolding py_in_iff by (metis append.assoc)

lemma py_in_snoc:
  assumes "x \<notin> set p" "py_in p (q @ [x])"
  shows "py_in p q"
proof -
  from assms(2) obtain a b where ab: "q @ [x] = a @ p @ b"
    unfolding py_in_iff by blast
  show ?thesis
  proof (cases b rule: rev_cases)
    case Nil
    with ab assms(1) have "p = []"
      by (cases p rule: rev_cases) auto
    then show ?thesis
      unfolding py_in_iff by auto
  next
    case (snoc b' y)
    with ab have "q = a @ p @ b'"
      by simp
    then show ?thesis
      unfolding py_in_iff by blast
  qed
qed

lemma startswith_prefix_last:
  assumes "startswith q s" "q \<noteq> []"
  shows "last q \<in> set s"
proof -
  from assms(1) obtain t where "s = q @ t"
    unfolding startswith_iff by blast
  with assms(2) show ?thesis by auto
qed

lemma swap_startswith:
  assumes "is_token tok"
  shows "CHR ''{'' \<notin> set q \<Longrightarrow> \<not> py_in new q \<Longrightarrow> (q \<noteq> [] \<longrightarrow> last q \<notin> set new) \<Longrightarrow>
     startswith q (text_of (map (swap_piece tok new) ps)) \<Longrightarrow> startswith q (text_of ps)"
proof (induction ps arbitrary: q)
  case Nil
  then show ?case by simp
next
  case (Cons p ps)
  let ?r' = "text_of (map (swap_piece tok new) ps)"
  from Cons.prems(4)
  have sw: "startswith q (template_text (swap_piece tok new p))
          \<or> (\<exists>q'. q = template_text (swap_piece tok new p) @ q' \<and> startswith q' ?r')"
    by (simp add: startswith_append_iff)
  show ?case
  proof (cases "p = tok")
    case True
    then have t: "template_text (swap_piece tok new p) = new"
      by (simp add: swap_piece_def)
    from sw show ?thesis
    proof
      assume a: "startswith q (template_text (swap_piece tok new p))"
      show ?thesis
      proof (cases "q = []")
        case True
        then show ?thesis by simp
      next
        case False
        with a t have "last q \<in> set new"
          using startswith_prefix_last by metis
        with Cons.prems(3) False show ?thesis by simp
      qed
    next
      assume "\<exists>q'. q = template_text (swap_piece tok new p) @ q' \<and> startswith q' ?r'"
      with t obtain q' where "q = new @ q'" by auto
      then have "py_in new q"
        by (simp add: py_in_prefix)
      with Cons.prems(2) show ?thesis by simp
    qed
  next
    case False
    then have t: "swap_piece tok new p = p"
      by (simp add: swap_piece_def)
    from sw show ?thesis
    proof
      assume "startswith q (template_text (swap_piece tok new p))"
      then show ?thesis
        by (simp add: t startswith_append_iff)
    next
      assume "\<exists>q'. q = template_text (swap_piece tok new p) @ q' \<and> startswith q' ?r'"
      then obtain q' where q': "q = template_text p @ q'" "startswith q' ?r'"
        by (auto simp: t)
      from q'(1) Cons.prems(1) have 1: "CHR ''{'' \<notin> set q'" by auto
      from q'(1) Cons.prems(2) have 2: "\<not> py_in new q'"
        using py_in_suffix by blast
      from q'(1) Cons.prems(3) have 3: "q' \<noteq> [] \<longrightarrow> last q' \<notin> set new" by auto
      from Cons.IH [OF 1 2 3 q'(2)] q'(1) show ?thesis
        by (auto simp: startswith_append_iff)
    qed
  qed
qed

lemma guarded_swap:
  assumes "is_token tok" "CHR ''{'' \<notin> set q" "\<not> py_in new q" "q \<noteq> []" "last q \<notin> set new"
    "CHR ''{'' \<notin> set new"
  shows "guarded (CHR ''{'' # q) ps \<Longrightarrow> guarded (CHR ''{'' # q) (map (swap_piece tok new) ps)"
proof (induction ps)
  case Nil
  then show ?case by simp
next
  case (Cons p ps)
  show ?case
  proof (cases p)
    case (Lit s)
    with assms(1) have sw: "swap_piece tok new p = Lit s"
      by (cases tok) (simp_all add: swap_piece_def)
    from Cons Lit have g: "guarded (CHR ''{'' # q) (map (swap_piece tok new) ps)"
      by simp
    from Cons.prems Lit
    have "CHR ''{'' \<notin> set s \<or> (s = ''{'' \<and> \<not> startswith q (text_of ps))"
      by auto
    moreover have "\<not> startswith q (text_of (map (swap_piece tok new) ps))"
      if "\<not> startswith q (text_of ps)"
      using that swap_startswith [OF assms(1,2,3), of ps] assms(4,5) by blast
    ultimately
    have "CHR ''{'' \<notin> set s
           \<or> (s = ''{'' \<and> \<not> startswith q (text_of (map (swap_piece tok new) ps)))"
      by blast
    with g show ?thesis
      by (auto simp: sw)
  next
    case JobTitle
    from Cons JobTitle have g: "guarded (CHR ''{'' # q) (map (swap_piece tok new) ps)"
      by simp
    have "swap_piece tok new p = Lit new \<or> swap_piece tok new p = JobTitle"
      by (simp add: swap_piece_def JobTitle)
    with g assms(6) show ?thesis by auto
  next
    case CompanyName
    from Cons CompanyName have g: "guarded (CHR ''{'' # q) (map (swap_piece tok new) ps)"
      by simp
    have "swap_piece tok new p = Lit new \<or> swap_piece tok new p = CompanyName"
      by (simp add: swap_piece_def CompanyName)
    with g assms(6) show ?thesis by auto
  next
    case Company
    from Cons Company have g: "guarded (CHR ''{'' # q) (map (swap_piece tok new) ps)"
      by simp
    have "swap_piece tok new p = Lit new \<or> swap_piece tok new p = Company"
      by (simp add: swap_piece_def Company)
    with g assms(6) show ?thesis by auto
  qed
qed


lemma template_tokens:
  assumes j: "CHR ''{'' \<notin> set j" "CHR ''}'' \<notin> set j" "\<not> py_in j ''company_name''"
    and c: "CHR ''{'' \<notin> set c" "CHR ''}'' \<notin> set c" "\<not> py_in c ''company''"
  shows "fill_cover_letter_template t j c = concat (map (expected_text j c) (tokenise t))"
proof -
  let ?p0 = "tokenise t"
  let ?p1 = "map (swap_piece JobTitle j) ?p0"
  let ?p2 = "map (swap_piece CompanyName c) ?p1"
  have g1: "guarded ''{job_title}'' ?p0" and g2: "guarded ''{company_name}'' ?p0"
    and g3: "guarded ''{company}'' ?p0"
    by (rule guarded_tokenise; simp)+
  have jn: "\<not> py_in j ''company_name}''"
    using py_in_snoc [of "CHR ''}''" j "''company_name''"] j(2,3) by auto
  from j(3) have "\<not> py_in j ''company''"
    using py_in_extend [of j "''company''" "''_name''"] by auto
  then have jc: "\<not> py_in j ''company}''"
    using py_in_snoc [of "CHR ''}''" j "''company''"] j(2) by auto
  have cc: "\<not> py_in c ''company}''"
    using py_in_snoc [of "CHR ''}''" c "''company''"] c(2,3) by auto
  have 1: "str_replace t ''{job_title}'' j = text_of ?p1"
    using replace_guarded [of JobTitle ?p0 j] g1 by (simp add: text_tokenise)
  have g2': "guarded ''{company_name}'' ?p1"
    using guarded_swap [where tok = JobTitle and q = "''company_name}''" and new = j and ps = ?p0]
      j(1,2) jn g2 by simp
  have g3': "guarded ''{company}'' ?p1"
    using guarded_swap [where tok = JobTitle and q = "''company}''" and new = j and ps = ?p0]
      j(1,2) jc g3 by simp
  have 2: "str_replace (text_of ?p1) ''{company_name}'' c = text_of ?p2"
    using replace_guarded [of CompanyName ?p1 c] g2' by simp
  have g3'': "guarded ''{company}'' ?p2"
    using guarded_swap [where tok = CompanyName and q = "''company}''" and new = c and ps = ?p1]
      c(1,2) cc g3' by simp
  have 3: "str_replace (text_of ?p2) ''{company}'' c
             = text_of (map (swap_piece Company c) ?p2)"
    using replace_guarded [of Company ?p2 c] g3'' by simp
  have 4: "map template_text (map (swap_piece Company c) ?p2) = map (expected_text j c) ?p0"
    by (simp add: swap_all)
  show ?thesis
    by (simp only: fill_cover_letter_template_def 1 2 3 4)
qed


lemma token_no_overlap:
  assumes "is_token p" "is_token tok" "template_text p @ r = a @ template_text tok @ b" "a \<noteq> []"
  shows "\<exists>u. a = template_text p @ u \<and> r = u @ template_text tok @ b"
proof -
  from assms(3) consider
      (inside) us where "template_text p = a @ us" "us @ r = template_text tok @ b"
    | (after) us where "template_text p @ us = a" "r = us @ template_text tok @ b"
    by (auto simp: append_eq_append_conv2)
  then show ?thesis
  proof cases
    case inside
    show ?thesis
    proof (cases "us = []")
      case True
      with inside show ?thesis by auto
    next
      case False
      with inside(2) assms(2) have "hd us = CHR ''{''"
        by (cases tok; cases us) auto
      with False have "CHR ''{'' \<in> set us"
        by (cases us) auto
      with inside(1) assms(4) have "CHR ''{'' \<in> set (tl (template_text p))"
        by (cases a) auto
      with assms(1) show ?thesis
        by (cases p) auto
    qed
  next
    case after
    then show ?thesis by auto
  qed
qed

lemma token_prefix_unique:
  assumes "is_token p" "is_token tok" "template_text p @ r = template_text tok @ b"
  shows "p = tok"
  using assms by (cases p; cases tok) auto

lemma tokenise_token:
  assumes "is_token p" "startswith (template_text p) (c # cs)"
  shows "\<exists>r. c # cs = template_text p @ r \<and> tokenise (c # cs) = p # tokenise r"
proof (cases p)
  case (Lit s)
  with assms(1) show ?thesis by simp
next
  case JobTitle
  with assms(2) have "startswith ''{job_title}'' (c # cs)" by simp
  from tokenise_cases(1) [OF this] JobTitle show ?thesis
    by (intro exI [of _ "drop 10 cs"]) auto
next
  case CompanyName
  with assms(2) have "\<not> startswith ''{job_title}'' (c # cs)"
    "startswith ''{company_name}'' (c # cs)" by (auto simp: startswith_iff)
  from tokenise_cases(2) [OF this] CompanyName show ?thesis
    by (intro exI [of _ "drop 13 cs"]) auto
next
  case Company
  with assms(2) have "\<not> startswith ''{job_title}'' (c # cs)"
    "\<not> startswith ''{company_name}'' (c # cs)" "startswith ''{company}'' (c # cs)"
    by (auto simp: startswith_iff)
  from tokenise_cases(3) [OF this] Company show ?thesis
    by (intro exI [of _ "drop 8 cs"]) auto
qed

lemma tokenise_head:
  "t \<noteq> [] \<Longrightarrow>
     (\<exists>p r. is_token p \<and> t = template_text p @ r \<and> tokenise t = p # tokenise r)
     \<or> ((\<forall>p. is_token p \<longrightarrow> \<not> startswith (template_text p) t)
          \<and> tokenise t = Lit [hd t] # tokenise (tl t))"
proof (cases t)
  case Nil
  assume "t \<noteq> []"
  with Nil show ?thesis by simp
next
  case (Cons c cs)
  show ?thesis
  proof (cases "\<exists>p. is_token p \<and> startswith (template_text p) (c # cs)")
    case True
    then obtain p where "is_token p" "startswith (template_text p) (c # cs)" by blast
    with tokenise_token [of p c cs] Cons show ?thesis by blast
  next
    case False
    then have "\<not> startswith (template_text JobTitle) (c # cs)"
      "\<not> startswith (template_text CompanyName) (c # cs)"
      "\<not> startswith (template_text Company) (c # cs)"
      by (metis is_token.simps)+
    then have "tokenise (c # cs) = Lit [c] # tokenise cs"
      using tokenise_cases(4) [of c cs] by simp
    with False Cons show ?thesis by auto
  qed
qed

lemma tokenise_occurrence:
  assumes "is_token tok"
  shows "t = a @ template_text tok @ b \<Longrightarrow>
           \<exists>ps qs. tokenise t = ps @ tok # qs \<and> text_of ps = a \<and> text_of qs = b"
proof (induction "length t" arbitrary: t a rule: less_induct)
  case less
  from less.prems assms have ne: "t \<noteq> []"
    by (cases tok) auto
  from tokenise_head [OF ne] show ?case
  proof (elim disjE exE conjE)
    fix p r
    assume p: "is_token p" and r: "t = template_text p @ r"
      and tk: "tokenise t = p # tokenise r"
    show ?thesis
    proof (cases "a = []")
      case True
      with less.prems r have "template_text p @ r = template_text tok @ b" by simp
      with p assms have "p = tok" "r = b"
        using token_prefix_unique by auto
      with tk True text_tokenise [of b] show ?thesis
        by (intro exI [of _ "[]"] exI [of _ "tokenise b"]) simp
    next
      case False
      from less.prems r have "template_text p @ r = a @ template_text tok @ b" by simp
      from token_no_overlap [OF p assms this False]
      obtain u where u: "a = template_text p @ u" "r = u @ template_text tok @ b" by blast
      from p r have "length r < length t"
        by (cases p) auto
      from less.hyps [OF this u(2)]
      obtain ps qs where "tokenise r = ps @ tok # qs" "text_of ps = u" "text_of qs = b"
        by blast
      with tk u(1) show ?thesis
        by (intro exI [of _ "p # ps"] exI [of _ qs]) simp
    qed
  next
    assume no: "\<forall>p. is_token p \<longrightarrow> \<not> startswith (template_text p) t"
      and tk: "tokenise t = Lit [hd t] # tokenise (tl t)"
    from no assms less.prems have "a \<noteq> []"
      by (auto simp: startswith_iff)
    then obtain x a' where a: "a = x # a'" by (cases a) auto
    with less.prems have tl: "tl t = a' @ template_text tok @ b" and hd: "hd t = x"
      by auto
    from ne have "length (tl t) < length t" by (cases t) auto
    from less.hyps [OF this tl]
    obtain ps qs where "tokenise (tl t) = ps @ tok # qs" "text_of ps = a'" "text_of qs = b"
      by blast
    with tk a hd show ?thesis
      by (intro exI [of _ "Lit [x] # ps"] exI [of _ qs]) simp
  qed
qed

lemma cover_fill_event:
  assumes "cover = (if cfg_cover_letter cfg \<noteq> [] then cfg_cover_letter cfg
                    else cfg_cover_letter_template cfg)"
    and "cover \<noteq> []" and "fill_cover_letter_template cover job_title company \<noteq> []"
    and "map_of (fields_map b) ''cover_letter'' = Some sels" and "n < length sels"
    and "query_selector r (sels ! n) = Found el" and "fillable el"
    and "\<forall>i<n. query_selector r (sels ! i) = Absent \<or> query_selector r (sels ! i) = Raises"
  shows "Fill el (fill_cover_letter_template cover job_title company) True
           \<in> set (fill_form_with_board e r b cfg job_title company)"
proof -
  let ?text = "fill_cover_letter_template cover job_title company"
  from assms(5) have "sels \<noteq> []" by auto
  with assms(3,4) have "fill_field r ''cover_letter'' ?text b = fill_loop r ?text sels"
    by (simp add: fill_field_def)
  with fill_loop_first_match [OF assms(5-8), of ?text]
  have ev: "Fill el ?text True \<in> set (snd (fill_field r ''cover_letter'' ?text b))"
    by simp
  from assms(1,2) ev show ?thesis
    unfolding fill_form_with_board_def Let_def
    by (auto split: if_splits)
qed

text \<open>
  Claim C6, amended.  \<open>fill_cover_letter_template\<close> applies three passes, each replacing
  every occurrence of one token: \<open>{job_title}\<close>, then \<open>{company_name}\<close>, then
  \<open>{company}\<close>.  The pieces of a template spell the template, and every place where a
  token occurs in the template is a token piece.  For every template, and every job title
  and company that contain no brace and are not themselves a fragment of \<open>company_name\<close>
  (for the title) or of \<open>company\<close> (for the company), the result is the template with
  each token piece replaced by its value.  For the template
  \<open>Dear {company}, re {job_title}\<close>, company \<open>Acme\<close> and title \<open>SRE\<close> the result is
  exactly \<open>Dear Acme, re SRE\<close>.  The substitution happens before filling: when the
  cover-letter selector number \<open>n\<close> is the first to find an element and \<open>fill\<close>
  succeeds on it, \<open>fill_form_with_board\<close> fills that element with the substituted text.
\<close>

theorem cover_letter_templating:
  "concat (map template_text (tokenise template)) = template
   \<and> (is_token tok \<and> template = a @ template_text tok @ b \<longrightarrow>
        (\<exists>ps qs. tokenise template = ps @ tok # qs
           \<and> concat (map template_text ps) = a \<and> concat (map template_text qs) = b))
   \<and> (CHR ''{'' \<notin> set job_title \<and> CHR ''}'' \<notin> set job_title
        \<and> \<not> py_in job_title ''company_name''
        \<and> CHR ''{'' \<notin> set company \<and> CHR ''}'' \<notin> set company \<and> \<not> py_in company ''company''
      \<longrightarrow> fill_cover_letter_template template job_title company
            = concat (map (expected_text job_title company) (tokenise template)))
   \<and> fill_cover_letter_template ''Dear {company}, re {job_title}'' ''SRE'' ''Acme''
        = ''Dear Acme, re SRE''
   \<and> (cover = (if cfg_cover_letter cfg \<noteq> [] then cfg_cover_letter cfg
                else cfg_cover_letter_template cfg)
        \<and> cover \<noteq> [] \<and> fill_cover_letter_template cover job_title company \<noteq> []
        \<and> map_of (fields_map b') ''cover_letter'' = Some sels \<and> n < length sels
        \<and> query_selector r (sels ! n) = Found el \<and> fillable el
        \<and> (\<forall>i<n. query_selector r (sels ! i) = Absent \<or> query_selector r (sels ! i) = Raises)
      \<longrightarrow> Fill el (fill_cover_letter_template cover job_title company) True
            \<in> set (fill_form_with_board e r b' cfg job_title company))"
proof (intro conjI impI)
  show "concat (map template_text (tokenise template)) = template"
    by (rule text_tokenise)
next
  assume "is_token tok \<and> template = a @ template_text tok @ b"
  then show "\<exists>ps qs. tokenise template = ps @ tok # qs
           \<and> concat (map template_text ps) = a \<and> concat (map template_text qs) = b"
    using tokenise_occurrence [of tok template a b] by blast
next
  assume "CHR ''{'' \<notin> set job_title \<and> CHR ''}'' \<notin> set job_title
        \<and> \<not> py_in job_title ''company_name''
        \<and> CHR ''{'' \<notin> set company \<and> CHR ''}'' \<notin> set company \<and> \<not> py_in company ''company''"
  then show "fill_cover_letter_template template job_title company
            = concat (map (expected_text job_title company) (tokenise template))"
    by (intro template_tokens) blast+
next
  show "fill_cover_letter_template ''Dear {company}, re {job_title}'' ''SRE'' ''Acme''
        = ''Dear Acme, re SRE''"
    by (simp add: fill_cover_letter_template_def)
next
  assume "cover = (if cfg_cover_letter cfg \<noteq> [] then cfg_cover_letter cfg
                else cfg_cover_letter_template cfg)
        \<and> cover \<noteq> [] \<and> fill_cover_letter_template cover job_title company \<noteq> []
        \<and> map_of (fields_map b') ''cover_letter'' = Some sels \<and> n < length sels
        \<and> query_selector r (sels ! n) = Found el \<and> fillable el
        \<and> (\<forall>i<n. query_selector r (sels ! i) = Absent \<or> query_selector r (sels ! i) = Raises)"
  then show "Fill el (fill_cover_letter_template cover job_title company) True
            \<in> set (fill_form_with_board e r b' cfg job_title company)"
    using cover_fill_event [of cover cfg job_title company b' sels n r el e] by blast
qed

lemma cover_selectors:
  \<open>map_of (fields_map greenhouse) ''cover_letter''
     = Some [''#job_application_cover_letter'', ''textarea[name*=\'cover\']'',
             ''textarea[id*=\'cover\']'', ''textarea[placeholder*=\'cover\']'']\<close>
  by (simp add: greenhouse_def)

theorem cover_letter_templating_witness:
  "(\<exists>ps qs. tokenise ''Dear {company}, re {job_title}'' = ps @ Company # qs
       \<and> concat (map template_text ps) = ''Dear ''
       \<and> concat (map template_text qs) = '', re {job_title}'')
   \<and> fill_cover_letter_template ''Dear {company}, re {job_title}'' ''SRE'' ''Acme''
       = ''Dear Acme, re SRE''
   \<and> Fill \<lparr>el_id = 3, inner_text = [], alt = [], fillable = True\<rparr> ''Dear Acme, re SRE'' True
       \<in> set (fill_form_with_board example_env cover_page greenhouse cover_config ''SRE'' ''Acme'')"
proof -
  let ?t = "''Dear {company}, re {job_title}''"
  let ?el = "\<lparr>el_id = 3, inner_text = [], alt = [], fillable = True\<rparr>"
  let ?sels = \<open>[''#job_application_cover_letter'', ''textarea[name*=\'cover\']'',
             ''textarea[id*=\'cover\']'', ''textarea[placeholder*=\'cover\']'']\<close>
  note T = cover_letter_templating [where template = ?t and tok = Company and a = "''Dear ''"
      and b = "'', re {job_title}''" and job_title = "''SRE''" and company = "''Acme''"
      and cover = ?t and cfg = cover_config and b' = greenhouse and sels = ?sels and n = 1
      and r = cover_page and el = ?el and e = example_env]
  have h1: "is_token Company \<and> ?t = ''Dear '' @ template_text Company @ '', re {job_title}''"
    by simp
  have h2: "CHR ''{'' \<notin> set ''SRE'' \<and> CHR ''}'' \<notin> set ''SRE'' \<and> \<not> py_in ''SRE'' ''company_name''
        \<and> CHR ''{'' \<notin> set ''Acme'' \<and> CHR ''}'' \<notin> set ''Acme'' \<and> \<not> py_in ''Acme'' ''company''"
    by simp
  have t: "concat (map (expected_text ''SRE'' ''Acme'') (tokenise ?t)) = ''Dear Acme, re SRE''"
    by code_simp
  have h3: "?t = (if cfg_cover_letter cover_config \<noteq> [] then cfg_cover_letter cover_config
                else cfg_cover_letter_template cover_config)
        \<and> ?t \<noteq> []
        \<and> map_of (fields_map greenhouse) ''cover_letter'' = Some ?sels \<and> 1 < length ?sels
        \<and> query_selector cover_page (?sels ! 1) = Found ?el \<and> fillable ?el
        \<and> (\<forall>i<1. query_selector cover_page (?sels ! i) = Absent
                 \<or> query_selector cover_page (?sels ! i) = Raises)"
    by (simp add: cover_config_def cover_selectors cover_page_def)
  from T h1 have 1: "\<exists>ps qs. tokenise ?t = ps @ Company # qs
       \<and> concat (map template_text ps) = ''Dear ''
       \<and> concat (map template_text qs) = '', re {job_title}''"
    by blast
  from T h2 have "fill_cover_letter_template ?t ''SRE'' ''Acme''
       = concat (map (expected_text ''SRE'' ''Acme'') (tokenise ?t))"
    by blast
  with t have 2: "fill_cover_letter_template ?t ''SRE'' ''Acme'' = ''Dear Acme, re SRE''"
    by simp
  then have "fill_cover_letter_template ?t ''SRE'' ''Acme'' \<noteq> []"
    by simp
  with T h3 have "Fill ?el (fill_cover_letter_template ?t ''SRE'' ''Acme'') True
       \<in> set (fill_form_with_board example_env cover_page greenhouse cover_config ''SRE'' ''Acme'')"
    by blast
  with 1 2 show ?thesis by simp
qed

text \<open>
  Claim C6 as stated has no condition on the values.  Because the passes run one after
  another, a value that contains a token, or that completes one together with the text
  around it, is replaced again by a later pass: in each of the four cases below the
  occurrence of the token in the template does not end up replaced by its value.
\<close>

theorem cover_letter_templating_counterexample:
  "fill_cover_letter_template ''{job_title}'' ''{company}'' ''Acme'' = ''Acme''
   \<and> concat (map (expected_text ''{company}'' ''Acme'') (tokenise ''{job_title}''))
       = ''{company}''
   \<and> fill_cover_letter_template ''{comp{job_title}ny}'' ''a'' ''Acme'' = ''Acme''
   \<and> concat (map (expected_text ''a'' ''Acme'') (tokenise ''{comp{job_title}ny}''))
       = ''{company}''
   \<and> fill_cover_letter_template ''{company{job_title}'' ''}'' ''Acme'' = ''Acme''
   \<and> concat (map (expected_text ''}'' ''Acme'') (tokenise ''{company{job_title}''))
       = ''{company}''
   \<and> fill_cover_letter_template ''{comp{company_name}ny}'' ''SRE'' ''a'' = ''a''
   \<and> concat (map (expected_text ''SRE'' ''a'') (tokenise ''{comp{company_name}ny}''))
       = ''{company}''"
  by code_simp

section \<open>The run driver: resuming\<close>

lemma main_manual:
  assumes "cfg_job_urls cfg \<noteq> []"
  shows "main e a cfg w =
           (case choose_job_urls a cfg w of
              (urls, from_search, w1) \<Rightarrow>
                if urls = [] then w1 else process_jobs e cfg urls (add_events [Launch] w1))"
  using assms
  by (auto simp: main_def choose_job_urls_def Let_def split: option.splits)

lemma slice_from_drop: "0 \<le> k \<Longrightarrow> slice_from xs k = drop (nat k) xs"
  by (simp add: slice_from_def)

lemma choose_resume_match:
  assumes "cfg_job_urls cfg \<noteq> []" "resume a" "progress_file w = Some p"
    "job_urls p = Some (cfg_job_urls cfg)"
    "idx = (case last_index p of None \<Rightarrow> - 1 | Some l \<Rightarrow> l)" "- 1 \<le> idx"
  shows "choose_job_urls a cfg w = (drop (nat (idx + 1)) (cfg_job_urls cfg), False, w)"
  using assms
  by (simp add: choose_job_urls_def load_progress_def truthy_def slice_from_drop Let_def)

lemma choose_resume_fallback:
  assumes "cfg_job_urls cfg \<noteq> []" "resume a"
    "progress_file w = None \<or> (\<exists>p. progress_file w = Some p \<and> job_urls p \<noteq> Some (cfg_job_urls cfg))"
  shows "choose_job_urls a cfg w
           = (not_applied (load_applied_jobs (applied_jobs_file w)) (cfg_job_urls cfg), False, w)"
  using assms
  by (auto simp: choose_job_urls_def load_progress_def Let_def split: option.splits)

lemma main_search_ignores_resume:
  assumes "cfg_job_urls cfg = []"
  shows "main e a cfg w = main e (a\<lparr>resume := r\<rparr>) cfg (w\<lparr>progress_file := q\<rparr>)"
  using assms
  by (simp add: main_def choose_job_urls_def Let_def clear_progress_def add_events_def
      split: prod.splits option.splits)

text \<open>
  Claim C2, amended.  When the configuration lists job URLs and the run is resumed: if the
  saved worklist equals the configured list and the saved index is at least \<open>-1\<close> (a
  missing index counts as \<open>-1\<close>), \<open>main\<close> processes exactly the suffix of the list from
  saved index + 1 (and ends at once when that suffix is empty); if no progress is saved or
  the saved worklist differs, it processes the configured list without the URLs of the
  applied set.  When no URL list is configured the worklist comes from the search, and
  neither the resume flag nor the saved progress has any effect on the run.
\<close>

theorem resume_semantics:
  "(cfg_job_urls cfg \<noteq> [] \<and> resume a \<and> progress_file w = Some p
      \<and> job_urls p = Some (cfg_job_urls cfg)
      \<and> idx = (case last_index p of None \<Rightarrow> - 1 | Some l \<Rightarrow> l) \<and> - 1 \<le> idx
    \<longrightarrow> main e a cfg w =
          (if drop (nat (idx + 1)) (cfg_job_urls cfg) = [] then w
           else process_jobs e cfg (drop (nat (idx + 1)) (cfg_job_urls cfg))
                  (add_events [Launch] w)))
   \<and> (cfg_job_urls cfg \<noteq> [] \<and> resume a
      \<and> (progress_file w = None
           \<or> (\<exists>p. progress_file w = Some p \<and> job_urls p \<noteq> Some (cfg_job_urls cfg)))
    \<longrightarrow> main e a cfg w =
          (if not_applied (load_applied_jobs (applied_jobs_file w)) (cfg_job_urls cfg) = [] then w
           else process_jobs e cfg
                  (not_applied (load_applied_jobs (applied_jobs_file w)) (cfg_job_urls cfg))
                  (add_events [Launch] w)))
   \<and> (cfg_job_urls cfg = []
    \<longrightarrow> main e a cfg w = main e (a\<lparr>resume := r\<rparr>) cfg (w\<lparr>progress_file := q\<rparr>))"
proof (intro conjI impI)
  assume h: "cfg_job_urls cfg \<noteq> [] \<and> resume a \<and> progress_file w = Some p
      \<and> job_urls p = Some (cfg_job_urls cfg)
      \<and> idx = (case last_index p of None \<Rightarrow> - 1 | Some l \<Rightarrow> l) \<and> - 1 \<le> idx"
  then have "choose_job_urls a cfg w = (drop (nat (idx + 1)) (cfg_job_urls cfg), False, w)"
    by (intro choose_resume_match) simp_all
  with h show "main e a cfg w =
          (if drop (nat (idx + 1)) (cfg_job_urls cfg) = [] then w
           else process_jobs e cfg (drop (nat (idx + 1)) (cfg_job_urls cfg))
                  (add_events [Launch] w))"
    by (simp add: main_manual)
next
  assume h: "cfg_job_urls cfg \<noteq> [] \<and> resume a
      \<and> (progress_file w = None
           \<or> (\<exists>p. progress_file w = Some p \<and> job_urls p \<noteq> Some (cfg_job_urls cfg)))"
  then have "choose_job_urls a cfg w
           = (not_applied (load_applied_jobs (applied_jobs_file w)) (cfg_job_urls cfg), False, w)"
    by (intro choose_resume_fallback) simp_all
  with h show "main e a cfg w =
          (if not_applied (load_applied_jobs (applied_jobs_file w)) (cfg_job_urls cfg) = [] then w
           else process_jobs e cfg
                  (not_applied (load_applied_jobs (applied_jobs_file w)) (cfg_job_urls cfg))
                  (add_events [Launch] w))"
    by (simp add: main_manual)
next
  assume "cfg_job_urls cfg = []"
  then show "main e a cfg w = main e (a\<lparr>resume := r\<rparr>) cfg (w\<lparr>progress_file := q\<rparr>)"
    by (rule main_search_ignores_resume)
qed

theorem resume_semantics_witness:
  "main example_env \<lparr>resume = True, board_arg = None\<rparr> (cover_config\<lparr>cfg_job_urls := two_jobs\<rparr>)
      (fresh_world\<lparr>progress_file := saved_progress two_jobs 0\<rparr>)
     = process_jobs example_env (cover_config\<lparr>cfg_job_urls := two_jobs\<rparr>)
         [''https://jobs.lever.co/acme/2'']
         (add_events [Launch] (fresh_world\<lparr>progress_file := saved_progress two_jobs 0\<rparr>))
   \<and> main example_env \<lparr>resume = True, board_arg = None\<rparr> (cover_config\<lparr>cfg_job_urls := two_jobs\<rparr>)
      (fresh_world\<lparr>applied_jobs_file := Some [''https://jobs.lever.co/acme/1'']\<rparr>)
     = process_jobs example_env (cover_config\<lparr>cfg_job_urls := two_jobs\<rparr>)
         [''https://jobs.lever.co/acme/2'']
         (add_events [Launch]
            (fresh_world\<lparr>applied_jobs_file := Some [''https://jobs.lever.co/acme/1'']\<rparr>))"
proof -
  let ?a = "\<lparr>resume = True, board_arg = None\<rparr>"
  let ?cfg = "cover_config\<lparr>cfg_job_urls := two_jobs\<rparr>"
  let ?w1 = "fresh_world\<lparr>progress_file := saved_progress two_jobs 0\<rparr>"
  let ?w2 = "fresh_world\<lparr>applied_jobs_file := Some [''https://jobs.lever.co/acme/1'']\<rparr>"
  have h1: "cfg_job_urls ?cfg \<noteq> [] \<and> resume ?a
      \<and> progress_file ?w1 = Some \<lparr>job_urls = Some two_jobs, last_index = Some 0\<rparr>
      \<and> job_urls \<lparr>job_urls = Some two_jobs, last_index = Some 0\<rparr> = Some (cfg_job_urls ?cfg)
      \<and> (0::int) = (case last_index \<lparr>job_urls = Some two_jobs, last_index = Some 0\<rparr> of
                      None \<Rightarrow> - 1 | Some l \<Rightarrow> l)
      \<and> - 1 \<le> (0::int)"
    by (simp add: two_jobs_def saved_progress_def)
  have h2: "cfg_job_urls ?cfg \<noteq> [] \<and> resume ?a
      \<and> (progress_file ?w2 = None
           \<or> (\<exists>p. progress_file ?w2 = Some p \<and> job_urls p \<noteq> Some (cfg_job_urls ?cfg)))"
    by (simp add: two_jobs_def fresh_world_def)
  have d: "drop (nat (0 + 1)) (cfg_job_urls ?cfg) = [''https://jobs.lever.co/acme/2'']"
    by (simp add: two_jobs_def)
  have n: "not_applied (load_applied_jobs (applied_jobs_file ?w2)) (cfg_job_urls ?cfg)
             = [''https://jobs.lever.co/acme/2'']"
    by (simp add: two_jobs_def not_applied_def load_applied_jobs_def)
  from resume_semantics [of ?cfg ?a ?w1 "\<lparr>job_urls = Some two_jobs, last_index = Some 0\<rparr>" 0
      example_env] h1
  have 1: "main example_env ?a ?cfg ?w1 =
          (if drop (nat (0 + 1)) (cfg_job_urls ?cfg) = [] then ?w1
           else process_jobs example_env ?cfg (drop (nat (0 + 1)) (cfg_job_urls ?cfg))
                  (add_events [Launch] ?w1))"
    by blast
  from resume_semantics [of ?cfg ?a ?w2 _ _ example_env] h2
  have 2: "main example_env ?a ?cfg ?w2 =
          (if not_applied (load_applied_jobs (applied_jobs_file ?w2)) (cfg_job_urls ?cfg) = []
           then ?w2
           else process_jobs example_env ?cfg
                  (not_applied (load_applied_jobs (applied_jobs_file ?w2)) (cfg_job_urls ?cfg))
                  (add_events [Launch] ?w2))"
    by blast
  from 1 2 show ?thesis
    unfolding d n by simp
qed

text \<open>
  Claim C2 as stated speaks of every current worklist.  When no URL list is configured the
  worklist comes from the search; here the search returns exactly the saved worklist and
  the saved index is 0, yet the resumed run navigates to the job at index 0.
\<close>

theorem resume_semantics_counterexample:
  "fst (search_jobs_via_browser example_env ''sre'' ''all'') = two_jobs
   \<and> progress_file (fresh_world\<lparr>progress_file := saved_progress two_jobs 0\<rparr>)
       = Some \<lparr>job_urls = Some two_jobs, last_index = Some 0\<rparr>
   \<and> Goto (two_jobs ! 0)
       \<in> set (trace (main example_env \<lparr>resume = True, board_arg = None\<rparr>
                       (cover_config\<lparr>cfg_job_search_query := Some ''sre''\<rparr>)
                       (fresh_world\<lparr>progress_file := saved_progress two_jobs 0\<rparr>)))"
proof (intro conjI)
  show "fst (search_jobs_via_browser example_env ''sre'' ''all'') = two_jobs"
    by code_simp
  show "progress_file (fresh_world\<lparr>progress_file := saved_progress two_jobs 0\<rparr>)
       = Some \<lparr>job_urls = Some two_jobs, last_index = Some 0\<rparr>"
    by (simp add: saved_progress_def)
  show "Goto (two_jobs ! 0)
       \<in> set (trace (main example_env \<lparr>resume = True, board_arg = None\<rparr>
                       (cover_config\<lparr>cfg_job_search_query := Some ''sre''\<rparr>)
                       (fresh_world\<lparr>progress_file := saved_progress two_jobs 0\<rparr>)))"
    by code_simp
qed

section \<open>The run driver: empty worklist\<close>

lemma main_search:
  assumes "cfg_job_urls cfg = []"
    and "query = (case cfg_job_search_query cfg of None \<Rightarrow> ''engineer'' | Some q \<Rightarrow> q)"
    and "bid = (case board_arg a of
                  None \<Rightarrow> (case cfg_board cfg of None \<Rightarrow> ''all'' | Some b \<Rightarrow> b)
                | Some b \<Rightarrow> if b = [] then (case cfg_board cfg of None \<Rightarrow> ''all'' | Some b \<Rightarrow> b)
                            else b)"
  shows "main e a cfg w =
           (let (found, evs) = search_jobs_via_browser e query bid;
                w3 = add_events evs (add_events [Launch] (clear_progress w))
            in if found = [] then add_events [Close] w3
               else process_jobs e cfg
                      (not_applied (load_applied_jobs (applied_jobs_file w)) found) w3)"
  using assms
  by (simp add: main_def choose_job_urls_def Let_def split: prod.splits)

lemma add_events_twice: "add_events ys (add_events xs w) = add_events (xs @ ys) w"
  by (simp add: add_events_def)

text \<open>
  Claim C8, amended.  When the configured URL list is not empty but nothing of it is left
  after filtering (or resuming), \<open>main\<close> ends before the browser is launched: no browser
  call, no write to the applied set, the log or the dump; the only change is that
  \<open>progress.json\<close> is deleted unless the run is resumed.  When the worklist comes from the
  search and the search finds nothing (or nothing that was not applied to already),
  \<open>main\<close> has launched the browser and navigated to the search page by then; it closes
  the browser and ends, having navigated to no job page and written neither the applied
  set nor the log, with \<open>progress.json\<close> deleted.
\<close>

theorem empty_worklist_termination:
  \<open>(cfg_job_urls cfg \<noteq> [] \<and> fst (choose_job_urls a cfg w) = []
      \<longrightarrow> main e a cfg w = (if resume a then w else clear_progress w))
   \<and> (cfg_job_urls cfg = []
       \<and> query = (case cfg_job_search_query cfg of None \<Rightarrow> ''engineer'' | Some q \<Rightarrow> q)
       \<and> bid = (case board_arg a of
                  None \<Rightarrow> (case cfg_board cfg of None \<Rightarrow> ''all'' | Some b \<Rightarrow> b)
                | Some b \<Rightarrow> if b = [] then (case cfg_board cfg of None \<Rightarrow> ''all'' | Some b \<Rightarrow> b)
                            else b)
       \<and> not_applied (load_applied_jobs (applied_jobs_file w))
             (fst (search_jobs_via_browser e query bid)) = []
      \<longrightarrow> main e a cfg w =
            add_events [Launch, Goto (search_url query bid), WaitFor ''a[href*="http"]'',
                        QueryAll ''a[href]'', Close] (clear_progress w))\<close>
proof (intro conjI impI)
  assume h: "cfg_job_urls cfg \<noteq> [] \<and> fst (choose_job_urls a cfg w) = []"
  then have "snd (snd (choose_job_urls a cfg w)) = (if resume a then w else clear_progress w)"
    by (auto simp: choose_job_urls_def Let_def split: option.splits)
  moreover obtain urls fs w1 where "choose_job_urls a cfg w = (urls, fs, w1)"
    by (cases "choose_job_urls a cfg w") auto
  ultimately show "main e a cfg w = (if resume a then w else clear_progress w)"
    using h by (simp add: main_manual)
next
  assume h: \<open>cfg_job_urls cfg = []
       \<and> query = (case cfg_job_search_query cfg of None \<Rightarrow> ''engineer'' | Some q \<Rightarrow> q)
       \<and> bid = (case board_arg a of
                  None \<Rightarrow> (case cfg_board cfg of None \<Rightarrow> ''all'' | Some b \<Rightarrow> b)
                | Some b \<Rightarrow> if b = [] then (case cfg_board cfg of None \<Rightarrow> ''all'' | Some b \<Rightarrow> b)
                            else b)
       \<and> not_applied (load_applied_jobs (applied_jobs_file w))
             (fst (search_jobs_via_browser e query bid)) = []\<close>
  then have m: "main e a cfg w =
           (let (found, evs) = search_jobs_via_browser e query bid;
                w3 = add_events evs (add_events [Launch] (clear_progress w))
            in if found = [] then add_events [Close] w3
               else process_jobs e cfg
                      (not_applied (load_applied_jobs (applied_jobs_file w)) found) w3)"
    by (intro main_search) simp_all
  obtain found where s: \<open>search_jobs_via_browser e query bid
      = (found, [Goto (search_url query bid), WaitFor ''a[href*="http"]'', QueryAll ''a[href]''])\<close>
    by (simp add: search_jobs_via_browser_def Let_def)
  from h s have "not_applied (load_applied_jobs (applied_jobs_file w)) found = []"
    by simp
  then show \<open>main e a cfg w =
            add_events [Launch, Goto (search_url query bid), WaitFor ''a[href*="http"]'',
                        QueryAll ''a[href]'', Close] (clear_progress w)\<close>
    unfolding m s
    by (simp add: process_jobs_def add_events_twice Let_def)
qed


theorem empty_worklist_termination_witness:
  \<open>main example_env \<lparr>resume = False, board_arg = None\<rparr> (cover_config\<lparr>cfg_job_urls := two_jobs\<rparr>)
      (fresh_world\<lparr>applied_jobs_file := Some two_jobs\<rparr>)
     = clear_progress (fresh_world\<lparr>applied_jobs_file := Some two_jobs\<rparr>)
   \<and> main example_env \<lparr>resume = False, board_arg = None\<rparr> cover_config fresh_world
     = add_events [Launch, Goto (search_url ''engineer'' ''all''), WaitFor ''a[href*="http"]'',
                   QueryAll ''a[href]'', Close] (clear_progress fresh_world)\<close>
proof -
  let ?a = "\<lparr>resume = False, board_arg = None\<rparr>"
  let ?cfg = "cover_config\<lparr>cfg_job_urls := two_jobs\<rparr>"
  let ?w = "fresh_world\<lparr>applied_jobs_file := Some two_jobs\<rparr>"
  have h1: "cfg_job_urls ?cfg \<noteq> [] \<and> fst (choose_job_urls ?a ?cfg ?w) = []"
    by (simp add: two_jobs_def choose_job_urls_def not_applied_def load_applied_jobs_def)
  have e: "fst (search_jobs_via_browser example_env ''engineer'' ''all'') = []"
    by code_simp
  have h2: "cfg_job_urls cover_config = []
       \<and> ''engineer'' = (case cfg_job_search_query cover_config of
                           None \<Rightarrow> ''engineer'' | Some q \<Rightarrow> q)
       \<and> ''all'' = (case board_arg ?a of
                  None \<Rightarrow> (case cfg_board cover_config of None \<Rightarrow> ''all'' | Some b \<Rightarrow> b)
                | Some b \<Rightarrow> if b = [] then (case cfg_board cover_config of
                                              None \<Rightarrow> ''all'' | Some b \<Rightarrow> b)
                            else b)
       \<and> not_applied (load_applied_jobs (applied_jobs_file fresh_world))
             (fst (search_jobs_via_browser example_env ''engineer'' ''all'')) = []"
    unfolding e by (simp add: cover_config_def not_applied_def)
  from empty_worklist_termination [where cfg = ?cfg and a = ?a and w = ?w and e = example_env] h1
  have 1: "main example_env ?a ?cfg ?w = clear_progress ?w"
    by simp
  from empty_worklist_termination [where cfg = cover_config and a = ?a and w = fresh_world
      and query = "''engineer''" and bid = "''all''" and e = example_env] h2
  have 2: \<open>main example_env ?a cover_config fresh_world
     = add_events [Launch, Goto (search_url ''engineer'' ''all''), WaitFor ''a[href*="http"]'',
                   QueryAll ''a[href]'', Close] (clear_progress fresh_world)\<close>
    by blast
  from 1 2 show ?thesis by blast
qed

text \<open>
  Claim C8 as stated lets the run end before any browser action also for an empty search
  result.  With no URL list configured and a search that finds no link, the run starts
  with an empty trace and ends with the browser launched and the search page visited.
\<close>

theorem empty_worklist_termination_counterexample:
  "fst (search_jobs_via_browser example_env ''engineer'' ''all'') = []
   \<and> trace fresh_world = []
   \<and> Launch \<in> set (trace (main example_env \<lparr>resume = False, board_arg = None\<rparr>
                               cover_config fresh_world))
   \<and> Goto (search_url ''engineer'' ''all'')
       \<in> set (trace (main example_env \<lparr>resume = False, board_arg = None\<rparr>
                       cover_config fresh_world))"
proof (intro conjI)
  show "fst (search_jobs_via_browser example_env ''engineer'' ''all'') = []"
    by code_simp
  show "trace fresh_world = []"
    by (simp add: fresh_world_def)
  show "Launch \<in> set (trace (main example_env \<lparr>resume = False, board_arg = None\<rparr>
                               cover_config fresh_world))"
    by code_simp
  show "Goto (search_url ''engineer'' ''all'')
       \<in> set (trace (main example_env \<lparr>resume = False, board_arg = None\<rparr>
                       cover_config fresh_world))"
    by code_simp
qed

section \<open>The run driver: undetected boards\<close>

lemma get_board_None_iff: "get_board bid = None \<longleftrightarrow> bid \<notin> set (map fst BOARDS)"
  by (simp add: get_board_def map_of_eq_None_iff)

lemma apply_to_job_unknown: "get_board bid = None \<Longrightarrow> apply_to_job e url cfg bid w = (False, w)"
  by (simp add: apply_to_job_def)

lemma apply_to_job_navigates:
  "get_board bid = Some b \<Longrightarrow>
     \<exists>evs. trace (snd (apply_to_job e url cfg bid w)) = trace w @ Goto url # evs"
  by (auto simp: apply_to_job_def Let_def add_events_def log_application_def
      split: prod.splits option.splits)

text \<open>
  Claim C10.  For a URL on which detection returns none, a round of the loop does not
  skip the URL: it calls \<open>apply_to_job\<close> with the board id of the configuration,
  \<open>greenhouse\<close> when none is configured.  \<open>apply_to_job\<close> returns failure without any
  browser call when that id names no registered board, and navigates to the URL first
  when it names one; the default id is registered.
\<close>

theorem undetected_board_fallback:
  "detect_board_from_url url = None \<longrightarrow>
     per_job e cfg urls i url w
       = save_progress urls i (snd (apply_to_job e url cfg (fallback_board cfg) w))
     \<and> fallback_board cfg = (case cfg_board cfg of None \<Rightarrow> ''greenhouse'' | Some b \<Rightarrow> b)
     \<and> (fallback_board cfg \<notin> set (map fst BOARDS)
          \<longrightarrow> apply_to_job e url cfg (fallback_board cfg) w = (False, w))
     \<and> (fallback_board cfg \<in> set (map fst BOARDS)
          \<longrightarrow> (\<exists>evs. trace (snd (apply_to_job e url cfg (fallback_board cfg) w))
                        = trace w @ Goto url # evs))
     \<and> (cfg_board cfg = None \<longrightarrow> fallback_board cfg \<in> set (map fst BOARDS))"
proof (intro impI conjI)
  assume "detect_board_from_url url = None"
  then show "per_job e cfg urls i url w
       = save_progress urls i (snd (apply_to_job e url cfg (fallback_board cfg) w))"
    by (simp add: per_job_def split: prod.splits)
next
  show "fallback_board cfg = (case cfg_board cfg of None \<Rightarrow> ''greenhouse'' | Some b \<Rightarrow> b)"
    by (simp add: fallback_board_def)
next
  assume "fallback_board cfg \<notin> set (map fst BOARDS)"
  then show "apply_to_job e url cfg (fallback_board cfg) w = (False, w)"
    by (simp add: apply_to_job_unknown get_board_None_iff)
next
  assume "fallback_board cfg \<in> set (map fst BOARDS)"
  then obtain b where "get_board (fallback_board cfg) = Some b"
    using get_board_None_iff [of "fallback_board cfg"] by auto
  then show "\<exists>evs. trace (snd (apply_to_job e url cfg (fallback_board cfg) w))
                        = trace w @ Goto url # evs"
    by (rule apply_to_job_navigates)
next
  assume "cfg_board cfg = None"
  then show "fallback_board cfg \<in> set (map fst BOARDS)"
    by (simp add: fallback_board_def BOARDS_def)
qed


theorem undetected_board_fallback_witness:
  "per_job example_env cover_config [''https://example.com/careers''] 0
      ''https://example.com/careers'' fresh_world
     = save_progress [''https://example.com/careers''] 0
         (snd (apply_to_job example_env ''https://example.com/careers'' cover_config
                 ''greenhouse'' fresh_world))
   \<and> (\<exists>evs. trace (snd (apply_to_job example_env ''https://example.com/careers'' cover_config
                          ''greenhouse'' fresh_world))
              = trace fresh_world @ Goto ''https://example.com/careers'' # evs)
   \<and> apply_to_job example_env ''https://example.com/careers''
        (cover_config\<lparr>cfg_board := Some ''all''\<rparr>) ''all'' fresh_world
     = (False, fresh_world)"
proof -
  let ?u = "''https://example.com/careers''"
  let ?c2 = "cover_config\<lparr>cfg_board := Some ''all''\<rparr>"
  have d: "detect_board_from_url ?u = None"
    by code_simp
  have f1: "fallback_board cover_config = ''greenhouse''"
    by (simp add: fallback_board_def cover_config_def)
  have f2: "fallback_board ?c2 = ''all''"
    by (simp add: fallback_board_def)
  have m1: "''greenhouse'' \<in> set (map fst BOARDS)" and m2: "''all'' \<notin> set (map fst BOARDS)"
    by (simp_all add: BOARDS_def)
  from undetected_board_fallback [of ?u example_env cover_config "[?u]" 0 fresh_world] d m1
  have 1: "per_job example_env cover_config [?u] 0 ?u fresh_world
     = save_progress [?u] 0 (snd (apply_to_job example_env ?u cover_config ''greenhouse'' fresh_world))
   \<and> (\<exists>evs. trace (snd (apply_to_job example_env ?u cover_config ''greenhouse'' fresh_world))
              = trace fresh_world @ Goto ?u # evs)"
    unfolding f1 by blast
  from undetected_board_fallback [of ?u example_env ?c2 "[?u]" 0 fresh_world] d m2
  have 2: "apply_to_job example_env ?u ?c2 ''all'' fresh_world = (False, fresh_world)"
    unfolding f2 by blast
  from 1 2 show ?thesis by blast
qed

section \<open>The run driver: saved progress\<close>

lemma per_job_progress:
  "progress_file (per_job e cfg urls i url w)
     = Some \<lparr>job_urls = Some urls, last_index = Some (int i)\<rparr>"
  by (simp add: per_job_def save_progress_def split: prod.splits)

lemma per_job_loop_append:
  "per_job_loop e cfg urls i (xs @ ys) w
     = per_job_loop e cfg urls (i + length xs) ys (per_job_loop e cfg urls i xs w)"
  by (induction xs arbitrary: i w) simp_all

lemma per_job_loop_last:
  "progress_file (per_job_loop e cfg urls i (xs @ [x]) w)
     = Some \<lparr>job_urls = Some urls, last_index = Some (int (i + length xs))\<rparr>"
  by (simp add: per_job_loop_append per_job_progress)

lemma per_job_loop_prefix:
  assumes "k < length urls"
  shows "progress_file (per_job_loop e cfg urls 0 (take (Suc k) urls) w)
           = Some \<lparr>job_urls = Some urls, last_index = Some (int k)\<rparr>"
proof -
  from assms have t: "take (Suc k) urls = take k urls @ [urls ! k]"
    by (rule take_Suc_conv_app_nth)
  from assms have l: "0 + length (take k urls) = k"
    by simp
  show ?thesis
    unfolding t using per_job_loop_last [of e cfg urls 0 "take k urls" "urls ! k" w]
    unfolding l .
qed

lemma per_job_loop_split:
  assumes "k < length urls"
  shows "per_job_loop e cfg urls 0 urls w
           = per_job_loop e cfg urls (Suc k) (drop (Suc k) urls)
               (per_job_loop e cfg urls 0 (take (Suc k) urls) w)"
proof -
  from assms have l: "0 + length (take (Suc k) urls) = Suc k"
    by simp
  have "per_job_loop e cfg urls 0 (take (Suc k) urls @ drop (Suc k) urls) w
           = per_job_loop e cfg urls (0 + length (take (Suc k) urls)) (drop (Suc k) urls)
               (per_job_loop e cfg urls 0 (take (Suc k) urls) w)"
    by (rule per_job_loop_append)
  then show ?thesis
    unfolding l append_take_drop_id .
qed

lemma main_fresh_run:
  assumes "cfg_job_urls cfg \<noteq> []" "\<not> resume a"
    "urls = not_applied (load_applied_jobs (applied_jobs_file w)) (cfg_job_urls cfg)" "urls \<noteq> []"
  shows "main e a cfg w
           = add_events [Close]
               (clear_progress
                  (per_job_loop e cfg urls 0 urls (add_events [Launch] (clear_progress w))))"
  using assms
  by (simp add: main_manual choose_job_urls_def process_jobs_def Let_def)

text \<open>
  Claim C9, amended.  A run that is not resumed iterates the configured list without the
  applied URLs, and that filtered list is the one handed to the loop.  After every round
  of the loop \<open>progress.json\<close> holds the list being iterated and the position of the URL
  just processed, whatever \<open>apply_to_job\<close> returned; so after the first \<open>k + 1\<close> rounds
  of a run it holds that list and \<open>k\<close>.  A run resumed from there skips the URLs up to
  position \<open>k\<close>, filled or not, when the configured list equals the saved list; when the
  configured list differs from the saved (filtered) list, the resumed run falls back to
  the configured list without the applied URLs.
\<close>

theorem progress_saved_after_each_job:
  "(cfg_job_urls cfg \<noteq> [] \<and> \<not> resume a
      \<and> urls = not_applied (load_applied_jobs (applied_jobs_file w0)) (cfg_job_urls cfg)
      \<and> urls \<noteq> []
    \<longrightarrow> main e a cfg w0
          = add_events [Close]
              (clear_progress
                 (per_job_loop e cfg urls 0 urls (add_events [Launch] (clear_progress w0)))))
   \<and> progress_file (per_job e cfg urls i url w)
       = Some \<lparr>job_urls = Some urls, last_index = Some (int i)\<rparr>
   \<and> (k < length urls \<longrightarrow>
        per_job_loop e cfg urls 0 urls w
          = per_job_loop e cfg urls (Suc k) (drop (Suc k) urls)
              (per_job_loop e cfg urls 0 (take (Suc k) urls) w)
        \<and> progress_file (per_job_loop e cfg urls 0 (take (Suc k) urls) w)
            = Some \<lparr>job_urls = Some urls, last_index = Some (int k)\<rparr>
        \<and> (resume r \<and> cfg_job_urls c = urls \<longrightarrow>
             fst (choose_job_urls r c (per_job_loop e cfg urls 0 (take (Suc k) urls) w))
               = drop (Suc k) urls)
        \<and> (resume r \<and> cfg_job_urls c \<noteq> urls \<and> cfg_job_urls c \<noteq> [] \<longrightarrow>
             fst (choose_job_urls r c (per_job_loop e cfg urls 0 (take (Suc k) urls) w))
               = not_applied
                   (load_applied_jobs
                      (applied_jobs_file (per_job_loop e cfg urls 0 (take (Suc k) urls) w)))
                   (cfg_job_urls c)))"
proof (intro conjI impI)
  assume "cfg_job_urls cfg \<noteq> [] \<and> \<not> resume a
      \<and> urls = not_applied (load_applied_jobs (applied_jobs_file w0)) (cfg_job_urls cfg)
      \<and> urls \<noteq> []"
  then have "cfg_job_urls cfg \<noteq> []" "\<not> resume a"
    "urls = not_applied (load_applied_jobs (applied_jobs_file w0)) (cfg_job_urls cfg)"
    "urls \<noteq> []"
    by blast+
  then show "main e a cfg w0
          = add_events [Close]
              (clear_progress
                 (per_job_loop e cfg urls 0 urls (add_events [Launch] (clear_progress w0))))"
    by (rule main_fresh_run)
next
  show "progress_file (per_job e cfg urls i url w)
       = Some \<lparr>job_urls = Some urls, last_index = Some (int i)\<rparr>"
    by (rule per_job_progress)
next
  assume "k < length urls"
  then show "per_job_loop e cfg urls 0 urls w
          = per_job_loop e cfg urls (Suc k) (drop (Suc k) urls)
              (per_job_loop e cfg urls 0 (take (Suc k) urls) w)"
    by (rule per_job_loop_split)
next
  assume "k < length urls"
  then show "progress_file (per_job_loop e cfg urls 0 (take (Suc k) urls) w)
            = Some \<lparr>job_urls = Some urls, last_index = Some (int k)\<rparr>"
    by (rule per_job_loop_prefix)
next
  let ?wk = "per_job_loop e cfg urls 0 (take (Suc k) urls) w"
  assume k: "k < length urls" and h: "resume r \<and> cfg_job_urls c = urls"
  from k have p: "progress_file ?wk = Some \<lparr>job_urls = Some urls, last_index = Some (int k)\<rparr>"
    by (rule per_job_loop_prefix)
  from k h have "cfg_job_urls c \<noteq> []" by auto
  with h p have "choose_job_urls r c ?wk = (drop (nat (int k + 1)) (cfg_job_urls c), False, ?wk)"
    by (intro choose_resume_match [where p = "\<lparr>job_urls = Some urls, last_index = Some (int k)\<rparr>"])
      simp_all
  with h show "fst (choose_job_urls r c ?wk) = drop (Suc k) urls"
    by (simp add: nat_add_distrib)
next
  let ?wk = "per_job_loop e cfg urls 0 (take (Suc k) urls) w"
  assume k: "k < length urls"
    and h: "resume r \<and> cfg_job_urls c \<noteq> urls \<and> cfg_job_urls c \<noteq> []"
  from k have p: "progress_file ?wk = Some \<lparr>job_urls = Some urls, last_index = Some (int k)\<rparr>"
    by (rule per_job_loop_prefix)
  with h have "choose_job_urls r c ?wk
           = (not_applied (load_applied_jobs (applied_jobs_file ?wk)) (cfg_job_urls c), False, ?wk)"
    by (intro choose_resume_fallback) auto
  then show "fst (choose_job_urls r c ?wk)
               = not_applied (load_applied_jobs (applied_jobs_file ?wk)) (cfg_job_urls c)"
    by simp
qed


theorem progress_saved_after_each_job_witness:
  "main example_env \<lparr>resume = False, board_arg = None\<rparr> (cover_config\<lparr>cfg_job_urls := two_jobs\<rparr>)
      (fresh_world\<lparr>applied_jobs_file := Some [''https://jobs.lever.co/acme/1'']\<rparr>)
     = add_events [Close]
         (clear_progress
            (per_job_loop example_env (cover_config\<lparr>cfg_job_urls := two_jobs\<rparr>)
               [''https://jobs.lever.co/acme/2''] 0 [''https://jobs.lever.co/acme/2'']
               (add_events [Launch]
                  (clear_progress
                     (fresh_world\<lparr>applied_jobs_file := Some [''https://jobs.lever.co/acme/1'']\<rparr>)))))
   \<and> progress_file
         (per_job_loop example_env (cover_config\<lparr>cfg_job_urls := two_jobs\<rparr>) two_jobs 0
            (take (Suc 0) two_jobs) fresh_world)
       = Some \<lparr>job_urls = Some two_jobs, last_index = Some 0\<rparr>
   \<and> fst (choose_job_urls \<lparr>resume = True, board_arg = None\<rparr>
             (cover_config\<lparr>cfg_job_urls := two_jobs\<rparr>)
             (per_job_loop example_env (cover_config\<lparr>cfg_job_urls := two_jobs\<rparr>) two_jobs 0
                (take (Suc 0) two_jobs) fresh_world))
       = drop (Suc 0) two_jobs"
proof -
  let ?a = "\<lparr>resume = False, board_arg = None\<rparr>"
  let ?r = "\<lparr>resume = True, board_arg = None\<rparr>"
  let ?cfg = "cover_config\<lparr>cfg_job_urls := two_jobs\<rparr>"
  let ?w0 = "fresh_world\<lparr>applied_jobs_file := Some [''https://jobs.lever.co/acme/1'']\<rparr>"
  let ?urls = "[''https://jobs.lever.co/acme/2'']"
  have h1: "cfg_job_urls ?cfg \<noteq> [] \<and> \<not> resume ?a
      \<and> ?urls = not_applied (load_applied_jobs (applied_jobs_file ?w0)) (cfg_job_urls ?cfg)
      \<and> ?urls \<noteq> []"
    by (simp add: two_jobs_def not_applied_def load_applied_jobs_def)
  have k: "0 < length two_jobs"
    by (simp add: two_jobs_def)
  have h2: "resume ?r \<and> cfg_job_urls ?cfg = two_jobs"
    by simp
  from progress_saved_after_each_job [where cfg = ?cfg and a = ?a and w0 = ?w0 and urls = ?urls
      and e = example_env] h1
  have 1: "main example_env ?a ?cfg ?w0
     = add_events [Close]
         (clear_progress
            (per_job_loop example_env ?cfg ?urls 0 ?urls (add_events [Launch] (clear_progress ?w0))))"
    by blast
  from progress_saved_after_each_job [where urls = two_jobs and k = 0 and e = example_env
      and cfg = ?cfg and w = fresh_world and r = ?r and c = ?cfg] k h2
  have 2: "progress_file (per_job_loop example_env ?cfg two_jobs 0 (take (Suc 0) two_jobs) fresh_world)
       = Some \<lparr>job_urls = Some two_jobs, last_index = Some (int 0)\<rparr>
     \<and> fst (choose_job_urls ?r ?cfg
             (per_job_loop example_env ?cfg two_jobs 0 (take (Suc 0) two_jobs) fresh_world))
       = drop (Suc 0) two_jobs"
    by blast
  from 1 2 show ?thesis by simp
qed

text \<open>
  Claim C9 as stated concludes that a resumed run skips the jobs that were attempted but
  never filled.  With two configured jobs of which the first is applied, the run iterates
  the second job only, finds no form, and saves the filtered list with index 0; the
  resumed run compares that list with the configured one, falls back to filtering, and
  processes the second job again.
\<close>

theorem progress_saved_after_each_job_counterexample:
  "fst (choose_job_urls \<lparr>resume = False, board_arg = None\<rparr>
          (cover_config\<lparr>cfg_job_urls := two_jobs\<rparr>)
          (fresh_world\<lparr>applied_jobs_file := Some [''https://jobs.lever.co/acme/1'']\<rparr>))
     = [''https://jobs.lever.co/acme/2'']
   \<and> fst (apply_to_job example_env ''https://jobs.lever.co/acme/2''
            (cover_config\<lparr>cfg_job_urls := two_jobs\<rparr>) ''lever''
            (add_events [Launch]
               (clear_progress
                  (fresh_world\<lparr>applied_jobs_file := Some [''https://jobs.lever.co/acme/1'']\<rparr>))))
       = False
   \<and> progress_file
         (per_job example_env (cover_config\<lparr>cfg_job_urls := two_jobs\<rparr>)
            [''https://jobs.lever.co/acme/2''] 0 ''https://jobs.lever.co/acme/2''
            (add_events [Launch]
               (clear_progress
                  (fresh_world\<lparr>applied_jobs_file := Some [''https://jobs.lever.co/acme/1'']\<rparr>))))
       = saved_progress [''https://jobs.lever.co/acme/2''] 0
   \<and> fst (choose_job_urls \<lparr>resume = True, board_arg = None\<rparr>
            (cover_config\<lparr>cfg_job_urls := two_jobs\<rparr>)
            (per_job example_env (cover_config\<lparr>cfg_job_urls := two_jobs\<rparr>)
               [''https://jobs.lever.co/acme/2''] 0 ''https://jobs.lever.co/acme/2''
               (add_events [Launch]
                  (clear_progress
                     (fresh_world\<lparr>applied_jobs_file := Some [''https://jobs.lever.co/acme/1'']\<rparr>)))))
     = [''https://jobs.lever.co/acme/2'']"
  by code_simp

section \<open>Jobs without a form\<close>

lemma find_in_frames_None:
  "\<forall>f \<in> set fs. \<forall>form. wait_for_selector f sel \<noteq> Found form \<Longrightarrow>
     fst (find_in_frames sel fs) = None"
  by (induction fs) (auto split: outcome.splits)

lemma find_form_None:
  assumes "sel = (case form_selector b of None \<Rightarrow> ''form'' | Some s \<Rightarrow> s)"
    and "\<forall>form. wait_for_selector (doc pg) sel \<noteq> Found form"
    and "\<forall>f \<in> set (frames pg). \<forall>form. wait_for_selector f sel \<noteq> Found form"
  shows "fst (find_form pg b) = None"
proof -
  from assms(3) have "fst (find_in_frames sel (frames pg)) = None"
    by (rule find_in_frames_None)
  with assms(1,2) show ?thesis
    by (cases "wait_for_selector (doc pg) sel") (auto simp: find_form_def Let_def)
qed

lemma apply_to_job_no_form:
  assumes "get_board bid = Some b" and "fst (find_form (web e url) b) = None"
  shows "apply_to_job e url cfg bid w =
           (False,
            (add_events [Content]
               (add_events (Goto url # snd (get_job_context (web e url) b)
                              @ snd (find_form (web e url) b)) w))
              \<lparr>debug_page := Some (case content (web e url) of None \<Rightarrow> [] | Some c \<Rightarrow> c)\<rparr>)"
  using assms
  by (cases "find_form (web e url) b"; cases "get_job_context (web e url) b")
    (auto simp: apply_to_job_def Let_def)

text \<open>
  Claim C7, amended.  For a job whose board id is registered and on whose page the form
  selector finds no form, neither in the main document nor in any frame:
  \<open>apply_to_job\<close> returns failure, leaves the applied set, the log and the progress as
  they were, and writes the page content to \<open>debug_page.html\<close> whenever the content can
  be read; the loop then goes on with the next URL of the list.
\<close>

theorem no_form_job_is_skipped:
  assumes "get_board bid = Some b"
    and "sel = (case form_selector b of None \<Rightarrow> ''form'' | Some s \<Rightarrow> s)"
    and "\<forall>form. wait_for_selector (doc (web e url)) sel \<noteq> Found form"
    and "\<forall>f \<in> set (frames (web e url)). \<forall>form. wait_for_selector f sel \<noteq> Found form"
  shows "\<exists>w'. apply_to_job e url cfg bid w = (False, w')
           \<and> applied_jobs_file w' = applied_jobs_file w
           \<and> applications_log w' = applications_log w
           \<and> progress_file w' = progress_file w
           \<and> (\<forall>c. content (web e url) = Some c \<longrightarrow> debug_page w' = Some c)
           \<and> (bid = (case detect_board_from_url url of
                       None \<Rightarrow> fallback_board cfg | Some d \<Rightarrow> d)
                \<longrightarrow> per_job_loop e cfg urls i (url # rest) w
                      = per_job_loop e cfg urls (Suc i) rest (save_progress urls i w'))"
proof -
  define w' where "w' =
    (add_events [Content]
       (add_events (Goto url # snd (get_job_context (web e url) b)
                      @ snd (find_form (web e url) b)) w))
      \<lparr>debug_page := Some (case content (web e url) of None \<Rightarrow> [] | Some c \<Rightarrow> c)\<rparr>"
  from assms(2-4) have "fst (find_form (web e url) b) = None"
    by (rule find_form_None)
  with assms(1) have a: "apply_to_job e url cfg bid w = (False, w')"
    unfolding w'_def by (rule apply_to_job_no_form)
  have loop: "per_job_loop e cfg urls i (url # rest) w
                = per_job_loop e cfg urls (Suc i) rest (save_progress urls i w')"
    if b: "bid = (case detect_board_from_url url of None \<Rightarrow> fallback_board cfg | Some d \<Rightarrow> d)"
  proof -
    have "per_job e cfg urls i url w = save_progress urls i w'"
      using a by (simp add: per_job_def b [symmetric])
    then show ?thesis by simp
  qed
  have "applied_jobs_file w' = applied_jobs_file w" "applications_log w' = applications_log w"
    "progress_file w' = progress_file w"
    "\<forall>c. content (web e url) = Some c \<longrightarrow> debug_page w' = Some c"
    by (simp_all add: w'_def add_events_def)
  with a loop show ?thesis by blast
qed

theorem no_form_job_is_skipped_witness:
  "\<exists>w'. apply_to_job readable_env ''https://jobs.lever.co/acme/1'' cover_config ''lever'' fresh_world
          = (False, w')
     \<and> applied_jobs_file w' = applied_jobs_file fresh_world
     \<and> applications_log w' = applications_log fresh_world
     \<and> debug_page w' = Some ''<html></html>''
     \<and> per_job_loop readable_env cover_config two_jobs 0
           (''https://jobs.lever.co/acme/1'' # [''https://jobs.lever.co/acme/2'']) fresh_world
         = per_job_loop readable_env cover_config two_jobs (Suc 0)
             [''https://jobs.lever.co/acme/2''] (save_progress two_jobs 0 w')"
proof -
  let ?u = "''https://jobs.lever.co/acme/1''"
  let ?sel = "case form_selector lever of None \<Rightarrow> ''form'' | Some s \<Rightarrow> s"
  have b: "get_board ''lever'' = Some lever"
    by (simp add: get_board_def BOARDS_def)
  have m: "\<forall>form. wait_for_selector (doc (web readable_env ?u)) ?sel \<noteq> Found form"
    by (simp add: readable_env_def blank_page_def blank_root_def)
  have f: "\<forall>f \<in> set (frames (web readable_env ?u)). \<forall>form. wait_for_selector f ?sel \<noteq> Found form"
    by (simp add: readable_env_def blank_page_def)
  have c: "content (web readable_env ?u) = Some ''<html></html>''"
    by (simp add: readable_env_def blank_page_def)
  have "detect_board_from_url ?u = Some ''lever''"
    by code_simp
  then have d: "''lever'' = (case detect_board_from_url ?u of
                              None \<Rightarrow> fallback_board cover_config | Some d \<Rightarrow> d)"
    by simp
  from no_form_job_is_skipped [OF b refl m f, of cover_config fresh_world two_jobs 0
      "[''https://jobs.lever.co/acme/2'']"] c d
  show ?thesis by blast
qed

text \<open>
  Claim C7 as stated promises a dump of the rendered page for every job without a form.
  On a page without a form whose content cannot be read the dump file is left empty; and
  a URL that no board matches, with the configured board \<open>all\<close>, is skipped before
  navigation, so no form is looked for and nothing is dumped.
\<close>

theorem no_form_job_is_skipped_counterexample:
  "fst (find_form (web example_env ''https://jobs.lever.co/acme/1'') lever) = None
   \<and> content (web example_env ''https://jobs.lever.co/acme/1'') = None
   \<and> debug_page (snd (apply_to_job example_env ''https://jobs.lever.co/acme/1'' cover_config
                         ''lever'' fresh_world)) = Some []
   \<and> detect_board_from_url ''https://example.com/careers'' = None
   \<and> fallback_board (cover_config\<lparr>cfg_board := Some ''all''\<rparr>) = ''all''
   \<and> apply_to_job example_env ''https://example.com/careers''
        (cover_config\<lparr>cfg_board := Some ''all''\<rparr>) ''all'' fresh_world = (False, fresh_world)
   \<and> debug_page fresh_world = None"
  by code_simp

end
